theory Spec2Isabelle
  imports Complex_Main "HOL-Library.Monad_Syntax" "HOL-Library.Log_Nat"
begin

section \<open>JavaScript strings\<close>

text \<open>
  A JavaScript string is modelled as a \<^typ>\<open>string\<close> whose characters are the code
  points U+0000 to U+00FF (Latin-1), one \<^typ>\<open>char\<close> per UTF-16 code unit. On this
  range \<open>toLowerCase\<close> maps \<open>A\<close>-\<open>Z\<close> and the accented capitals U+00C0-U+00DE
  (except the multiplication sign U+00D7) to the code point 32 above and leaves every
  other character alone; the white space of \<open>\s\<close> and of \<open>trim\<close> is TAB, LF, VT, FF,
  CR, SPACE and NO-BREAK SPACE.
\<close>

definition isSpace :: "char \<Rightarrow> bool" where
  "isSpace c = ((of_char c :: nat) \<in> {9, 10, 11, 12, 13, 32, 160})"

definition isUpper :: "char \<Rightarrow> bool" where
  "isUpper c =
     (let n = (of_char c :: nat)
      in (65 \<le> n \<and> n \<le> 90) \<or> (192 \<le> n \<and> n \<le> 222 \<and> n \<noteq> 215))"

definition isLowerAZ :: "char \<Rightarrow> bool" where
  "isLowerAZ c = (let n = (of_char c :: nat) in 97 \<le> n \<and> n \<le> 122)"

definition isDigit :: "char \<Rightarrow> bool" where
  "isDigit c = (let n = (of_char c :: nat) in 48 \<le> n \<and> n \<le> 57)"

definition isHyphen :: "char \<Rightarrow> bool" where
  "isHyphen c = (c = CHR ''-'')"

definition lowerChar :: "char \<Rightarrow> char" where
  "lowerChar c = (if isUpper c then char_of ((of_char c :: nat) + 32) else c)"

definition toLowerCase :: "string \<Rightarrow> string" where
  "toLowerCase s = map lowerChar s"

definition trim :: "string \<Rightarrow> string" where
  "trim s = rev (dropWhile isSpace (rev (dropWhile isSpace s)))"

text \<open>
  \<open>s.replace(/X+/g, r)\<close> for a character class \<open>X\<close>: every maximal run of
  characters of the class is replaced by \<open>r\<close>.
\<close>

function replaceRuns :: "(char \<Rightarrow> bool) \<Rightarrow> string \<Rightarrow> string \<Rightarrow> string" where
  "replaceRuns P r [] = []"
| "replaceRuns P r (c # cs) =
     (if P c then r @ replaceRuns P r (dropWhile P cs) else c # replaceRuns P r cs)"
  by pat_completeness auto
termination
  by (relation "measure (\<lambda>(P, r, s). length s)")
     (auto simp: length_dropWhile_le le_imp_less_Suc)

text \<open>The template literal \<open>`${n}`\<close> of a non-negative integer: its decimal digits.\<close>

definition digitChar :: "nat \<Rightarrow> char" where
  "digitChar d = char_of (48 + d)"

fun decimal :: "nat \<Rightarrow> string" where
  "decimal n = (if n < 10 then [digitChar n] else decimal (n div 10) @ [digitChar (n mod 10)])"

declare decimal.simps [simp del]

section \<open>Slug normalisation (routes/jobs.ts and routes/admin.ts)\<close>

text \<open>The class \<open>[a-z0-9\s-]\<close>; \<open>slugify\<close> deletes every character outside it.\<close>

definition slugClass :: "char \<Rightarrow> bool" where
  "slugClass c = (isLowerAZ c \<or> isDigit c \<or> isSpace c \<or> isHyphen c)"

definition slugify :: "string \<Rightarrow> string" where
  "slugify input =
     replaceRuns isHyphen ''-''
       (replaceRuns isSpace ''-''
         (trim (filter slugClass (toLowerCase input))))"

text \<open>The copy of the same function in routes/admin.ts.\<close>

definition slugifyInput :: "string \<Rightarrow> string" where
  "slugifyInput input =
     replaceRuns isHyphen ''-''
       (replaceRuns isSpace ''-''
         (trim (filter slugClass (toLowerCase input))))"

section \<open>The Listing Store\<close>

record job =
  oid :: string
  jobType :: string
  title :: string
  slug :: string
  department :: string
  state :: string
  qualification :: string
  eligibility :: "string option"
  ageLimit :: "string option"
  vacancies :: "string option"
  salary :: "string option"
  fees :: "string option"
  startDate :: "int option"
  lastDate :: "int option"
  selectionProcess :: "string option"
  applyLink :: "string option"
  notificationPDF :: "string option"
  source_name :: "string option"
  source_url :: "string option"
  isExpired :: bool
  createdAt :: nat

text \<open>\<open>Job.exists({ slug })\<close>.\<close>

definition Job_exists_slug :: "job list \<Rightarrow> string \<Rightarrow> bool" where
  "Job_exists_slug store s = (s \<in> set (map slug store))"

text \<open>
  The probing loop of \<open>ensureUniqueSlug\<close> (the same loop in both route files):
  \<^verbatim>\<open>while (await Job.exists({ slug })) { slug = `${normalized}-${i}`; i += 1; }\<close>
  The counter is a natural number; a loop that never ends has the value \<open>None\<close>.
\<close>

partial_function (option) probeLoop :: "job list \<Rightarrow> string \<Rightarrow> string \<Rightarrow> nat \<Rightarrow> string option" where
  "probeLoop store normalized s i =
     (if Job_exists_slug store s
      then probeLoop store normalized (normalized @ ''-'' @ decimal i) (i + 1)
      else Some s)"

declare probeLoop.simps [code]

text \<open>\<open>ensureUniqueSlug\<close> of routes/jobs.ts; \<open>now\<close> is the value of \<open>Date.now()\<close>.\<close>

definition ensureUniqueSlug :: "job list \<Rightarrow> nat \<Rightarrow> string \<Rightarrow> string option" where
  "ensureUniqueSlug store now base =
     (let normalized = slugify base
      in if normalized = [] then Some (''job-'' @ decimal now)
         else probeLoop store normalized normalized 2)"

text \<open>\<open>ensureUniqueSlug\<close> of routes/admin.ts.\<close>

definition ensureUniqueSlug_admin :: "job list \<Rightarrow> nat \<Rightarrow> string \<Rightarrow> string option" where
  "ensureUniqueSlug_admin store now base =
     (let normalized = slugifyInput base
      in if normalized = [] then Some (''job-'' @ decimal now)
         else probeLoop store normalized normalized 2)"

section \<open>Request bodies and their schemas\<close>

text \<open>A JSON request body, as \<open>express.json()\<close> hands it to the handler.\<close>

datatype json =
  JNull | JBool bool | JNum rat | JStr string | JArr "json list" | JObj "(string \<times> json) list"

fun field :: "json \<Rightarrow> string \<Rightarrow> json option" where
  "field (JObj kvs) k = map_of kvs k"
| "field _ k = None"

text \<open>
  The zod constructors the schemas use. A result \<open>None\<close> is a failed parse. The URL and
  e-mail formats are checks of the zod library and are parameters of the model.
\<close>

fun zString :: "nat \<Rightarrow> json option \<Rightarrow> string option" where
  "zString n (Some (JStr s)) = (if n \<le> length s then Some s else None)"
| "zString n _ = None"

fun zStringOptional :: "json option \<Rightarrow> string option option" where
  "zStringOptional None = Some None"
| "zStringOptional (Some (JStr s)) = Some (Some s)"
| "zStringOptional _ = None"

fun zStringFormat :: "(string \<Rightarrow> bool) \<Rightarrow> json option \<Rightarrow> string option" where
  "zStringFormat ok (Some (JStr s)) = (if ok s then Some s else None)"
| "zStringFormat ok _ = None"

fun zStringFormatOptional :: "(string \<Rightarrow> bool) \<Rightarrow> json option \<Rightarrow> string option option" where
  "zStringFormatOptional ok None = Some None"
| "zStringFormatOptional ok (Some (JStr s)) = (if ok s then Some (Some s) else None)"
| "zStringFormatOptional ok _ = None"

fun zTypeEnum :: "json option \<Rightarrow> string option" where
  "zTypeEnum None = Some ''job''"
| "zTypeEnum (Some (JStr s)) =
     (if s = ''job'' \<or> s = ''result'' \<or> s = ''admit-card'' then Some s else None)"
| "zTypeEnum _ = None"

record job_input =
  in_type :: string
  in_title :: string
  in_department :: string
  in_state :: string
  in_qualification :: string
  in_eligibility :: "string option"
  in_ageLimit :: "string option"
  in_vacancies :: "string option"
  in_salary :: "string option"
  in_fees :: "string option"
  in_startDate :: "string option"
  in_lastDate :: "string option"
  in_selectionProcess :: "string option"
  in_applyLink :: string
  in_notificationPDF :: "string option"
  in_source_name :: string
  in_source_url :: string

text \<open>
  \<open>jobInputSchema.safeParse(req.body)\<close>, the same schema in both route files. The
  schema is not strict: a key it does not declare, \<open>isExpired\<close> among them, is
  dropped from the parsed data.
\<close>

definition jobInputSchema :: "(string \<Rightarrow> bool) \<Rightarrow> json \<Rightarrow> job_input option" where
  "jobInputSchema isUrl body = do {
     ty \<leftarrow> zTypeEnum (field body ''type'');
     ti \<leftarrow> zString 3 (field body ''title'');
     de \<leftarrow> zString 2 (field body ''department'');
     st \<leftarrow> zString 2 (field body ''state'');
     qu \<leftarrow> zString 2 (field body ''qualification'');
     el \<leftarrow> zStringOptional (field body ''eligibility'');
     ag \<leftarrow> zStringOptional (field body ''ageLimit'');
     va \<leftarrow> zStringOptional (field body ''vacancies'');
     sa \<leftarrow> zStringOptional (field body ''salary'');
     fe \<leftarrow> zStringOptional (field body ''fees'');
     sd \<leftarrow> zStringOptional (field body ''startDate'');
     ld \<leftarrow> zStringOptional (field body ''lastDate'');
     sp \<leftarrow> zStringOptional (field body ''selectionProcess'');
     al \<leftarrow> zStringFormat isUrl (field body ''applyLink'');
     pdf \<leftarrow> zStringFormatOptional isUrl (field body ''notificationPDF'');
     src \<leftarrow> field body ''source'';
     sn \<leftarrow> zString 2 (field src ''name'');
     su \<leftarrow> zStringFormat isUrl (field src ''url'');
     Some \<lparr> in_type = ty, in_title = ti, in_department = de, in_state = st,
            in_qualification = qu, in_eligibility = el, in_ageLimit = ag,
            in_vacancies = va, in_salary = sa, in_fees = fe, in_startDate = sd,
            in_lastDate = ld, in_selectionProcess = sp, in_applyLink = al,
            in_notificationPDF = pdf, in_source_name = sn, in_source_url = su \<rparr>
   }"

text \<open>
  \<open>toDate\<close> (\<open>toDateInput\<close> in routes/admin.ts); \<open>parseDate\<close> stands for
  \<open>new Date(input).getTime()\<close>, with \<open>None\<close> for \<open>NaN\<close>.
\<close>

definition toDate :: "(string \<Rightarrow> int option) \<Rightarrow> string option \<Rightarrow> int option" where
  "toDate parseDate input =
     (case input of None \<Rightarrow> None | Some s \<Rightarrow> if s = [] then None else parseDate s)"

definition toDateInput :: "(string \<Rightarrow> int option) \<Rightarrow> string option \<Rightarrow> int option" where
  "toDateInput parseDate input =
     (case input of None \<Rightarrow> None | Some s \<Rightarrow> if s = [] then None else parseDate s)"

section \<open>Creating a listing\<close>

text \<open>
  A failure of a store call: the duplicate-key condition (\<open>e.code === 11000\<close>) or any
  other error.
\<close>

datatype store_error = DuplicateKey | OtherError

text \<open>
  \<open>Job.create(doc)\<close> against the schema of models/Job.ts: the \<open>trim\<close> setters of
  \<open>title\<close>, \<open>department\<close>, \<open>state\<close> and \<open>qualification\<close>; validation (the required
  strings are not empty, the type is one of the enum); the unique indexes on
  \<open>slug\<close> and, among the documents that have one, on \<open>source.url\<close>; the identifier and
  the \<open>createdAt\<close> timestamp given by the store. The new document is appended.
\<close>

definition Job_create :: "string \<Rightarrow> nat \<Rightarrow> job \<Rightarrow> job list \<Rightarrow> store_error + (job \<times> job list)" where
  "Job_create newId stamp doc store =
     (let d = doc \<lparr> oid := newId, title := trim (title doc), department := trim (department doc),
                    state := trim (state doc), qualification := trim (qualification doc),
                    createdAt := stamp \<rparr>
      in if title d = [] \<or> slug d = [] \<or> department d = [] \<or> state d = [] \<or> qualification d = []
            \<or> jobType d \<notin> {''job'', ''result'', ''admit-card''}
         then Inl OtherError
         else if slug d \<in> set (map slug store)
                 \<or> (source_url d \<noteq> None \<and> source_url d \<in> set (map source_url store))
         then Inl DuplicateKey
         else Inr (d, store @ [d]))"

text \<open>A response: \<open>res.status(code).json({ error: message })\<close>, or a success with its payload.\<close>

datatype 'a reply = Fail nat string | Ok nat 'a

text \<open>What one request brings besides its body: the clock and the identifier the store will give.\<close>

record call =
  clock :: nat
  freshId :: string

text \<open>
  The document both handlers pass to \<open>Job.create\<close>:
  \<^verbatim>\<open>{ ...parsed.data, slug, startDate: toDate(..), lastDate: toDate(..), isExpired: false }\<close>
\<close>

definition newJob :: "job_input \<Rightarrow> string \<Rightarrow> int option \<Rightarrow> int option \<Rightarrow> job" where
  "newJob d s sd ld =
     \<lparr> oid = [], jobType = in_type d, title = in_title d, slug = s,
       department = in_department d, state = in_state d, qualification = in_qualification d,
       eligibility = in_eligibility d, ageLimit = in_ageLimit d, vacancies = in_vacancies d,
       salary = in_salary d, fees = in_fees d, startDate = sd, lastDate = ld,
       selectionProcess = in_selectionProcess d, applyLink = Some (in_applyLink d),
       notificationPDF = in_notificationPDF d, source_name = Some (in_source_name d),
       source_url = Some (in_source_url d), isExpired = False, createdAt = 0 \<rparr>"

text \<open>
  The handler of \<open>POST /api/jobs\<close> (routes/jobs.ts), after the admin gate. The result is
  the response and the store after the request; \<open>None\<close> when the probing loop never ends.
\<close>

definition jobs_post ::
  "(string \<Rightarrow> bool) \<Rightarrow> (string \<Rightarrow> int option) \<Rightarrow> call \<Rightarrow> json \<Rightarrow> job list
     \<Rightarrow> ((string \<times> string) reply \<times> job list) option" where
  "jobs_post isUrl parseDate c body store =
     (case jobInputSchema isUrl body of
        None \<Rightarrow> Some (Fail 400 ''Invalid input'', store)
      | Some d \<Rightarrow>
          (case ensureUniqueSlug store (clock c) (in_title d) of
             None \<Rightarrow> None
           | Some s \<Rightarrow>
               (case Job_create (freshId c) (clock c)
                       (newJob d s (toDate parseDate (in_startDate d)) (toDate parseDate (in_lastDate d)))
                       store of
                  Inl DuplicateKey \<Rightarrow>
                    Some (Fail 409 ''Duplicate job (source URL already exists)'', store)
                | Inl OtherError \<Rightarrow> Some (Fail 500 ''Failed to create job'', store)
                | Inr (doc, store') \<Rightarrow> Some (Ok 200 (oid doc, slug doc), store'))))"

text \<open>The handler of \<open>POST /api/admin/jobs\<close> (routes/admin.ts), after the admin gate.\<close>

definition admin_post_jobs ::
  "(string \<Rightarrow> bool) \<Rightarrow> (string \<Rightarrow> int option) \<Rightarrow> call \<Rightarrow> json \<Rightarrow> job list
     \<Rightarrow> ((string \<times> string) reply \<times> job list) option" where
  "admin_post_jobs isUrl parseDate c body store =
     (case jobInputSchema isUrl body of
        None \<Rightarrow> Some (Fail 400 ''Invalid input'', store)
      | Some d \<Rightarrow>
          (case ensureUniqueSlug_admin store (clock c) (in_title d) of
             None \<Rightarrow> None
           | Some s \<Rightarrow>
               (case Job_create (freshId c) (clock c)
                       (newJob d s (toDateInput parseDate (in_startDate d))
                          (toDateInput parseDate (in_lastDate d)))
                       store of
                  Inl DuplicateKey \<Rightarrow>
                    Some (Fail 409 ''Duplicate job (source URL already exists)'', store)
                | Inl OtherError \<Rightarrow> Some (Fail 500 ''Failed to create job'', store)
                | Inr (doc, store') \<Rightarrow> Some (Ok 200 (oid doc, slug doc), store'))))"

text \<open>
  Requests handled one after the other, with no other write in between: the responses in
  order and the final store.
\<close>

fun createAll ::
  "(string \<Rightarrow> bool) \<Rightarrow> (string \<Rightarrow> int option) \<Rightarrow> (call \<times> json) list \<Rightarrow> job list
     \<Rightarrow> ((string \<times> string) reply list \<times> job list) option" where
  "createAll isUrl parseDate [] store = Some ([], store)"
| "createAll isUrl parseDate ((c, body) # rest) store =
     (case jobs_post isUrl parseDate c body store of
        None \<Rightarrow> None
      | Some (r, store') \<Rightarrow>
          (case createAll isUrl parseDate rest store' of
             None \<Rightarrow> None
           | Some (rs, store'') \<Rightarrow> Some (r # rs, store'')))"

text \<open>The slugs of the successful responses, in order.\<close>

fun assignedSlugs :: "(string \<times> string) reply list \<Rightarrow> string list" where
  "assignedSlugs [] = []"
| "assignedSlugs (Ok code (i, s) # rs) = s # assignedSlugs rs"
| "assignedSlugs (Fail code msg # rs) = assignedSlugs rs"

section \<open>Query parameters of \<open>GET /api/jobs\<close>\<close>

text \<open>
  A value of \<open>req.query\<close>: a string, an array or a nested object. A parameter that is
  not in the URL is \<open>None\<close>.
\<close>

datatype qvalue = QStr string | QArr "qvalue list" | QObj "(string \<times> qvalue) list"

fun joinComma :: "string list \<Rightarrow> string" where
  "joinComma [] = []"
| "joinComma [x] = x"
| "joinComma (x # y # ys) = x @ '','' @ joinComma (y # ys)"

text \<open>\<open>String(v)\<close>.\<close>

fun jsString :: "qvalue \<Rightarrow> string" where
  "jsString (QStr s) = s"
| "jsString (QArr vs) = joinComma (map jsString vs)"
| "jsString (QObj kvs) = ''[object Object]''"

text \<open>The truthiness that \<open>v || d\<close> tests: only a missing value and the empty string are falsy.\<close>

fun truthy :: "qvalue option \<Rightarrow> bool" where
  "truthy None = False"
| "truthy (Some (QStr s)) = (s \<noteq> [])"
| "truthy (Some v) = True"

text \<open>\<open>String(v || d)\<close>.\<close>

definition stringOr :: "qvalue option \<Rightarrow> string \<Rightarrow> string" where
  "stringOr v d = (case v of None \<Rightarrow> d | Some x \<Rightarrow> if truthy v then jsString x else d)"

text \<open>\<open>typeof v === "string" ? v.trim() : undefined\<close>.\<close>

fun trimmedString :: "qvalue option \<Rightarrow> string option" where
  "trimmedString (Some (QStr s)) = Some (trim s)"
| "trimmedString v = None"

text \<open>
  A JavaScript number: a double-precision float. A finite double is a rational number,
  and \<open>Finite\<close> carries it. \<open>Math.max\<close>, \<open>Math.min\<close> and \<open>Math.ceil\<close> are
  exact on doubles.
\<close>

datatype jsnum = NaN | PosInfinity | NegInfinity | Finite rat

text \<open>
  The arithmetic of the language rounds the exact result of \<open>-\<close>, \<open>*\<close> and \<open>/\<close>
  to the nearest double, a tie going to the double whose last bit is zero, and a result
  beyond the largest double to an infinity (IEEE 754, binary64). For \<open>x > 0\<close>,
  \<open>exponentOf x\<close> is the \<open>e\<close> with \<open>2^e \<le> x < 2^(e+1)\<close>; the doubles around \<open>x\<close> are
  the multiples of \<open>quantum x\<close>, which is \<open>2^(e-52)\<close>, and \<open>2^-1074\<close> below the
  normal range. The sign of a zero is not modelled.
\<close>

definition exponentOf :: "rat \<Rightarrow> int" where
  "exponentOf x = (if 1 \<le> x then bitlen \<lfloor>x\<rfloor> - 1 else - bitlen (\<lceil>1 / x\<rceil> - 1))"

definition roundHalfEven :: "rat \<Rightarrow> int" where
  "roundHalfEven y =
     (let f = \<lfloor>y\<rfloor>; r = y - of_int f
      in if r < 1 / 2 then f else if 1 / 2 < r then f + 1 else if even f then f else f + 1)"

definition quantum :: "rat \<Rightarrow> rat" where
  "quantum x = 2 powi (max (exponentOf \<bar>x\<bar>) (- 1022) - 52)"

definition roundDouble :: "rat \<Rightarrow> jsnum" where
  "roundDouble x =
     (if x = 0 then Finite 0
      else let q = quantum x; y = of_int (roundHalfEven (\<bar>x\<bar> / q)) * q
           in if 2 powi 1024 \<le> y then (if 0 < x then PosInfinity else NegInfinity)
              else Finite (if 0 < x then y else - y))"

text \<open>
  \<open>Number(v || d)\<close>, for the defaults \<open>"1"\<close> and \<open>"20"\<close> of the handler;
  \<open>toNumber\<close> is the conversion of the language from a string to a number.
\<close>

definition numberOr :: "(string \<Rightarrow> jsnum) \<Rightarrow> qvalue option \<Rightarrow> rat \<Rightarrow> jsnum" where
  "numberOr toNumber v d = (case v of None \<Rightarrow> Finite d | Some x \<Rightarrow> if truthy v then toNumber (jsString x) else Finite d)"

record query =
  q_type :: "qvalue option"
  q_q :: "qvalue option"
  q_state :: "qvalue option"
  q_qualification :: "qvalue option"
  q_department :: "qvalue option"
  q_includeExpired :: "qvalue option"
  q_page :: "qvalue option"
  q_limit :: "qvalue option"

definition pageOf :: "(string \<Rightarrow> jsnum) \<Rightarrow> query \<Rightarrow> jsnum" where
  "pageOf toNumber qu = numberOr toNumber (q_page qu) 1"

definition limitOf :: "(string \<Rightarrow> jsnum) \<Rightarrow> query \<Rightarrow> jsnum" where
  "limitOf toNumber qu = numberOr toNumber (q_limit qu) 20"

text \<open>\<open>Number.isFinite(page) ? Math.max(page, 1) : 1\<close>.\<close>

definition pageSafe :: "jsnum \<Rightarrow> rat" where
  "pageSafe page = (case page of Finite p \<Rightarrow> max p 1 | _ \<Rightarrow> 1)"

text \<open>\<open>Math.min(Math.max(Number.isFinite(limit) ? limit : 20, 1), 50)\<close>.\<close>

definition limitSafe :: "jsnum \<Rightarrow> rat" where
  "limitSafe limit = min (max (case limit of Finite l \<Rightarrow> l | _ \<Rightarrow> 20) 1) 50"

text \<open>
  \<open>(pageSafe - 1) * limitSafe\<close>, in doubles: the difference is rounded, then the
  product; an infinite difference times the limit, which is positive, is infinite.
\<close>

definition skipOf :: "jsnum \<Rightarrow> jsnum \<Rightarrow> jsnum" where
  "skipOf page limit =
     (case roundDouble (pageSafe page - 1) of
        Finite d \<Rightarrow> roundDouble (d * limitSafe limit)
      | v \<Rightarrow> v)"

text \<open>
  \<open>Math.max(Math.ceil(total / limitSafe), 1)\<close>, in doubles; the count is a number of
  documents.
\<close>

definition totalPagesOf :: "nat \<Rightarrow> rat \<Rightarrow> jsnum" where
  "totalPagesOf count limit =
     (case roundDouble (of_nat count / limit) of
        Finite d \<Rightarrow> Finite (of_int (max \<lceil>d\<rceil> 1))
      | v \<Rightarrow> v)"

section \<open>The search pattern\<close>

text \<open>The class \<open>[.*+?^${}()|[\]\\]\<close> of \<open>escapeRegex\<close>; \<open>CHR 0x5C\<close> is the backslash.\<close>

definition regexSpecial :: "char \<Rightarrow> bool" where
  "regexSpecial c = (c \<in> set ''.*+?^${}()|[]'' \<or> c = CHR 0x5C)"

text \<open>\<open>input.replace(/[.*+?^${}()|[\]\\]/g, "\\$&")\<close>.\<close>

definition escapeRegex :: "string \<Rightarrow> string" where
  "escapeRegex input = concat (map (\<lambda>c. if regexSpecial c then [CHR 0x5C, c] else [c]) input)"

text \<open>
  The pattern engine of the store (PCRE), as far as the search needs it; it is not part
  of the repository, and what follows is taken from the syntax of the engine, not from
  \<open>escapeRegex\<close>. Outside a character class the engine has twelve metacharacters: the
  backslash, the anchors \<open>^\<close> and \<open>$\<close>, the dot, the opening bracket, the bar, the
  two parentheses and the quantifiers \<open>?\<close>, \<open>*\<close>, \<open>+\<close> and \<open>{\<close>. Every other
  character, a closing bracket or a closing brace among them, stands for itself. A
  backslash before a character that is neither a letter nor a digit stands for that
  character; a backslash before a letter or a digit is an escape sequence with a meaning
  of its own; a backslash at the end is a syntax error. \<open>literalPattern p\<close> is the
  text a pattern stands for when it has no operator, no escape sequence and no error, and
  \<open>None\<close> for every other pattern, about which the model says nothing.
\<close>

definition patternSyntaxChar :: "char \<Rightarrow> bool" where
  "patternSyntaxChar c =
     (c \<in> {CHR 0x5C, CHR ''^'', CHR ''$'', CHR ''.'', CHR ''['', CHR ''|'',
            CHR ''('', CHR '')'', CHR ''?'', CHR ''*'', CHR ''+'', CHR ''{''})"

definition isAsciiAlnum :: "char \<Rightarrow> bool" where
  "isAsciiAlnum c =
     (let n = (of_char c :: nat)
      in (48 \<le> n \<and> n \<le> 57) \<or> (65 \<le> n \<and> n \<le> 90) \<or> (97 \<le> n \<and> n \<le> 122))"

fun literalPattern :: "string \<Rightarrow> string option" where
  "literalPattern [] = Some []"
| "literalPattern [c] = (if patternSyntaxChar c then None else Some [c])"
| "literalPattern (c # e # es) =
     (if c = CHR 0x5C
      then (if isAsciiAlnum e then None else map_option ((#) e) (literalPattern es))
      else if patternSyntaxChar c then None
      else map_option ((#) c) (literalPattern (e # es)))"

fun isPrefixOf :: "string \<Rightarrow> string \<Rightarrow> bool" where
  "isPrefixOf [] ys = True"
| "isPrefixOf (x # xs) [] = False"
| "isPrefixOf (x # xs) (y # ys) = (x = y \<and> isPrefixOf xs ys)"

fun contains :: "string \<Rightarrow> string \<Rightarrow> bool" where
  "contains p [] = (p = [])"
| "contains p (c # cs) = (isPrefixOf p (c # cs) \<or> contains p cs)"

text \<open>A literal text found in a subject, letter case ignored (the option \<open>i\<close>).\<close>

definition containsCI :: "string \<Rightarrow> string \<Rightarrow> bool" where
  "containsCI lit subject = contains (toLowerCase lit) (toLowerCase subject)"

section \<open>The filter and the listing query\<close>

text \<open>
  The filter object of the handler. \<open>f_or\<close> is the pattern of the four \<open>$regex\<close>
  conditions under \<open>$or\<close>, all with the option \<open>i\<close>.
\<close>

record jobFilter =
  f_type :: string
  f_isExpired :: "bool option"
  f_state :: "string option"
  f_qualification :: "string option"
  f_department :: "string option"
  f_or :: "string option"

definition nonEmpty :: "string option \<Rightarrow> string option" where
  "nonEmpty v = (case v of None \<Rightarrow> None | Some s \<Rightarrow> if s = [] then None else Some s)"

definition typeOf :: "query \<Rightarrow> string" where
  "typeOf qu = (let t = stringOr (q_type qu) ''job'' in if t = [] then ''job'' else t)"

definition includeExpired :: "query \<Rightarrow> bool" where
  "includeExpired qu = (stringOr (q_includeExpired qu) [] = ''1'')"

definition buildFilter :: "query \<Rightarrow> jobFilter" where
  "buildFilter qu =
     \<lparr> f_type = typeOf qu,
       f_isExpired = (if \<not> includeExpired qu then Some False else None),
       f_state = nonEmpty (trimmedString (q_state qu)),
       f_qualification = nonEmpty (trimmedString (q_qualification qu)),
       f_department = nonEmpty (trimmedString (q_department qu)),
       f_or = map_option escapeRegex (nonEmpty (trimmedString (q_q qu))) \<rparr>"

text \<open>A document against a filter whose pattern stands for the literal text \<open>lit\<close>.\<close>

definition matches :: "jobFilter \<Rightarrow> string option \<Rightarrow> job \<Rightarrow> bool" where
  "matches f lit j =
     (jobType j = f_type f
      \<and> (case f_isExpired f of None \<Rightarrow> True | Some b \<Rightarrow> isExpired j = b)
      \<and> (case f_state f of None \<Rightarrow> True | Some s \<Rightarrow> state j = s)
      \<and> (case f_qualification f of None \<Rightarrow> True | Some s \<Rightarrow> qualification j = s)
      \<and> (case f_department f of None \<Rightarrow> True | Some s \<Rightarrow> department j = s)
      \<and> (case lit of None \<Rightarrow> True
          | Some t \<Rightarrow> containsCI t (title j) \<or> containsCI t (department j)
                      \<or> containsCI t (state j) \<or> containsCI t (qualification j)))"

text \<open>
  The documents a filter selects, in store order; \<open>None\<close> when the pattern of the filter
  is not a literal pattern.
\<close>

definition Job_find :: "jobFilter \<Rightarrow> job list \<Rightarrow> job list option" where
  "Job_find f store =
     (case f_or f of
        None \<Rightarrow> Some (filter (matches f None) store)
      | Some p \<Rightarrow>
          (case literalPattern p of
             None \<Rightarrow> None
           | Some t \<Rightarrow> Some (filter (matches f (Some t)) store)))"

text \<open>\<open>.sort({ createdAt: -1 })\<close>.\<close>

definition newestFirst :: "job list \<Rightarrow> job list" where
  "newestFirst js = sort_key (\<lambda>j. - int (createdAt j)) js"

text \<open>
  \<open>.skip(n)\<close> and \<open>.limit(n)\<close> of the store, which is not part of the repository:
  they take the integer part of a number that is not an integer, and a skip that is not
  finite, being beyond every document, leaves none.
\<close>

definition skipLimit :: "jsnum \<Rightarrow> rat \<Rightarrow> job list \<Rightarrow> job list" where
  "skipLimit s l js =
     (case s of Finite d \<Rightarrow> take (nat \<lfloor>l\<rfloor>) (drop (nat \<lfloor>d\<rfloor>) js) | _ \<Rightarrow> [])"

record listing =
  r_items :: "job list"
  r_total :: nat
  r_page :: rat
  r_limit :: rat
  r_totalPages :: jsnum

text \<open>The handler of \<open>GET /api/jobs\<close>; its response has status 200.\<close>

definition jobs_get :: "(string \<Rightarrow> jsnum) \<Rightarrow> query \<Rightarrow> job list \<Rightarrow> listing option" where
  "jobs_get toNumber qu store =
     (let page = pageOf toNumber qu;
          limit = limitOf toNumber qu;
          f = buildFilter qu
      in case Job_find f store of
           None \<Rightarrow> None
         | Some found \<Rightarrow>
             Some \<lparr> r_items = skipLimit (skipOf page limit) (limitSafe limit) (newestFirst found),
                    r_total = length found,
                    r_page = pageSafe page,
                    r_limit = limitSafe limit,
                    r_totalPages = totalPagesOf (length found) (limitSafe limit) \<rparr>)"

section \<open>The access control gate (middleware/requireAdmin.ts)\<close>

text \<open>The claims of a verified session token.\<close>

record payload =
  p_sub :: string
  p_name :: "string option"
  p_email :: string
  p_role :: string

text \<open>A request of type \<open>AdminRequest\<close>: the request itself and the optional \<open>auth\<close>.\<close>

record 'r admin_request =
  request :: 'r
  auth :: "payload option"

text \<open>What the middleware does: it sends a response, or it calls \<open>next()\<close> on the request.\<close>

datatype 'r gate = Responded nat string | Next "'r admin_request"

text \<open>
  \<open>getTokenFromRequest\<close> and \<open>verifyAuthToken\<close> live in auth.ts and are parameters:
  the first gives the token or nothing, the second gives the claims or throws (\<open>Inl\<close>,
  with whatever it throws). An empty token is falsy, like a missing one.
\<close>

definition requireAdmin ::
  "('r \<Rightarrow> string option) \<Rightarrow> (string \<Rightarrow> 'e + payload) \<Rightarrow> 'r admin_request \<Rightarrow> 'r gate" where
  "requireAdmin getTokenFromRequest verifyAuthToken r =
     (case getTokenFromRequest (request r) of
        None \<Rightarrow> Responded 401 ''Unauthorized''
      | Some token \<Rightarrow>
          if token = [] then Responded 401 ''Unauthorized''
          else (case verifyAuthToken token of
                  Inl thrown \<Rightarrow> Responded 401 ''Unauthorized''
                | Inr pl \<Rightarrow>
                    if p_role pl \<noteq> ''admin'' then Responded 403 ''Forbidden''
                    else Next (r \<lparr> auth := Some pl \<rparr>)))"

section \<open>The Credential Store and routes/auth.ts\<close>

record user =
  u_id :: string
  u_name :: string
  u_email :: string
  u_password :: string
  u_role :: string

text \<open>\<open>User.exists({ email })\<close> and \<open>User.findOne({ email })\<close>.\<close>

definition User_exists_email :: "user list \<Rightarrow> string \<Rightarrow> bool" where
  "User_exists_email users e = (e \<in> set (map u_email users))"

definition User_findOne_email :: "user list \<Rightarrow> string \<Rightarrow> user option" where
  "User_findOne_email users e = find (\<lambda>u. u_email u = e) users"

text \<open>
  \<open>User.create(doc)\<close> against the schema of models/User.ts: validation (the required
  strings are not empty, the role is one of the enum), then the unique index on
  \<open>email\<close>. The handlers pass a trimmed name and a lowercased, validated e-mail, which
  the \<open>trim\<close> and \<open>lowercase\<close> setters of the schema leave as they are.
\<close>

definition User_create :: "string \<Rightarrow> user \<Rightarrow> user list \<Rightarrow> store_error + (user \<times> user list)" where
  "User_create newId doc users =
     (let d = doc \<lparr> u_id := newId \<rparr>
      in if u_name d = [] \<or> u_email d = [] \<or> u_password d = []
            \<or> u_role d \<notin> {''user'', ''admin''}
         then Inl OtherError
         else if u_email d \<in> set (map u_email users) then Inl DuplicateKey
         else Inr (d, users @ [d]))"

record register_input =
  reg_name :: string
  reg_email :: string
  reg_password :: string

definition registerSchema :: "(string \<Rightarrow> bool) \<Rightarrow> json \<Rightarrow> register_input option" where
  "registerSchema isEmail body = do {
     n \<leftarrow> zString 2 (field body ''name'');
     e \<leftarrow> zStringFormat isEmail (field body ''email'');
     p \<leftarrow> zString 8 (field body ''password'');
     Some \<lparr> reg_name = n, reg_email = e, reg_password = p \<rparr>
   }"

text \<open>
  The handler of \<open>POST /api/auth/register\<close>. \<open>hashPassword\<close> (auth.ts) gives the hash
  or throws. The handler reads the store twice, with the hashing in between: \<open>users\<close>
  is the store at the existence check and \<open>others users\<close> the store at the create,
  after the writes of other requests (the identity when there are none). The result is
  the response and the store after the request.
\<close>

definition register ::
  "(string \<Rightarrow> bool) \<Rightarrow> (string \<Rightarrow> 'e + string) \<Rightarrow> string \<Rightarrow> (user list \<Rightarrow> user list)
     \<Rightarrow> json \<Rightarrow> user list \<Rightarrow> unit reply \<times> user list" where
  "register isEmail hashPassword newId others body users =
     (case registerSchema isEmail body of
        None \<Rightarrow> (Fail 400 ''Invalid input'', users)
      | Some d \<Rightarrow>
          if User_exists_email users (toLowerCase (reg_email d))
          then (Fail 409 ''Email already registered'', users)
          else (case hashPassword (reg_password d) of
                  Inl thrown \<Rightarrow> (Fail 500 ''Registration failed'', others users)
                | Inr hashed \<Rightarrow>
                    (case User_create newId
                            \<lparr> u_id = [], u_name = trim (reg_name d),
                              u_email = toLowerCase (reg_email d),
                              u_password = hashed, u_role = ''user'' \<rparr>
                            (others users) of
                       Inl DuplicateKey \<Rightarrow> (Fail 409 ''Email already registered'', others users)
                     | Inl OtherError \<Rightarrow> (Fail 500 ''Registration failed'', others users)
                     | Inr (u, users') \<Rightarrow> (Ok 201 (), users'))))"

record login_input =
  log_email :: string
  log_password :: string

definition loginSchema :: "(string \<Rightarrow> bool) \<Rightarrow> json \<Rightarrow> login_input option" where
  "loginSchema isEmail body = do {
     e \<leftarrow> zStringFormat isEmail (field body ''email'');
     p \<leftarrow> zString 1 (field body ''password'');
     Some \<lparr> log_email = e, log_password = p \<rparr>
   }"

text \<open>
  The handler of \<open>POST /api/auth/login\<close>. \<open>verifyPassword\<close>, \<open>signAuthToken\<close> and
  \<open>createAuthCookie\<close> (auth.ts) are parameters; the first two give a result or throw.
  A success carries the \<open>Set-Cookie\<close> header.
\<close>

definition login ::
  "(string \<Rightarrow> bool) \<Rightarrow> (string \<Rightarrow> string \<Rightarrow> 'e + bool) \<Rightarrow> (payload \<Rightarrow> 'e + string)
     \<Rightarrow> (string \<Rightarrow> string) \<Rightarrow> json \<Rightarrow> user list \<Rightarrow> string reply" where
  "login isEmail verifyPassword signAuthToken createAuthCookie body users =
     (case loginSchema isEmail body of
        None \<Rightarrow> Fail 400 ''Invalid input''
      | Some d \<Rightarrow>
          (case User_findOne_email users (toLowerCase (log_email d)) of
             None \<Rightarrow> Fail 401 ''Invalid email or password''
           | Some u \<Rightarrow>
               (case verifyPassword (log_password d) (u_password u) of
                  Inl thrown \<Rightarrow> Fail 500 ''Login failed''
                | Inr ok \<Rightarrow>
                    if \<not> ok then Fail 401 ''Invalid email or password''
                    else (case signAuthToken
                                 \<lparr> p_sub = u_id u,
                                   p_name = (if u_name u = [] then None else Some (u_name u)),
                                   p_email = u_email u,
                                   p_role = (if u_role u = ''admin'' then ''admin'' else ''user'') \<rparr> of
                            Inl thrown \<Rightarrow> Fail 500 ''Login failed''
                          | Inr token \<Rightarrow> Ok 200 (createAuthCookie token)))))"

section \<open>Auxiliary notions for the statements\<close>

text \<open>
  A request body for a listing with the given title and source URL, the other required
  fields fixed, with or without a value under the undeclared key \<open>isExpired\<close>.
\<close>

definition listingBody :: "string \<Rightarrow> string \<Rightarrow> json option \<Rightarrow> json" where
  "listingBody t url expired =
     JObj ((case expired of None \<Rightarrow> [] | Some v \<Rightarrow> [(''isExpired'', v)])
           @ [(''title'', JStr t), (''department'', JStr ''Health''),
              (''state'', JStr ''Kerala''), (''qualification'', JStr ''Nursing''),
              (''applyLink'', JStr ''https://example.org/apply''),
              (''source'', JObj [(''name'', JStr ''Board''), (''url'', JStr url)])])"

text \<open>A store that holds one listing, created from the title \<open>abc 2\<close>.\<close>

definition seededStore :: "job list" where
  "seededStore =
     [\<lparr> oid = ''a'', jobType = ''job'', title = ''abc 2'', slug = ''abc-2'',
        department = ''Health'', state = ''Kerala'', qualification = ''Nursing'',
        eligibility = None, ageLimit = None, vacancies = None, salary = None, fees = None,
        startDate = None, lastDate = None, selectionProcess = None,
        applyLink = Some ''https://example.org/apply'', notificationPDF = None,
        source_name = Some ''Board'', source_url = Some ''https://example.org/1'',
        isExpired = False, createdAt = 1 \<rparr>]"

text \<open>
  Sample data for the evaluated instances below: a query without parameters, a listing,
  a number conversion that knows a few strings (with the doubles nearest to \<open>1.2\<close> and
  to \<open>2.6666666666666665\<close>), a token verifier whose token is the
  role it grants, a credential store with one user, request bodies, and stand-ins for
  the e-mail check, the password hasher and the token signer.
\<close>

definition noQuery :: query where
  "noQuery = \<lparr> q_type = None, q_q = None, q_state = None, q_qualification = None,
               q_department = None, q_includeExpired = None, q_page = None, q_limit = None \<rparr>"

definition sampleJob :: "string \<Rightarrow> string \<Rightarrow> nat \<Rightarrow> bool \<Rightarrow> job" where
  "sampleJob i t created expired =
     \<lparr> oid = i, jobType = ''job'', title = t, slug = i,
       department = ''Health'', state = ''Kerala'', qualification = ''Nursing'',
       eligibility = None, ageLimit = None, vacancies = None, salary = None, fees = None,
       startDate = None, lastDate = None, selectionProcess = None,
       applyLink = Some ''https://example.org/apply'', notificationPDF = None,
       source_name = Some ''Board'', source_url = None,
       isExpired = expired, createdAt = created \<rparr>"

definition sampleNumber :: "string \<Rightarrow> jsnum" where
  "sampleNumber s =
     (if s = ''0'' then Finite 0 else if s = ''2'' then Finite 2 else if s = ''3'' then Finite 3
      else if s = ''1000'' then Finite 1000 else if s = ''Infinity'' then PosInfinity
      else if s = ''1.2'' then Finite (5404319552844595 / 4503599627370496)
      else if s = ''2.6666666666666665'' then Finite (6004799503160661 / 2251799813685248)
      else NaN)"

definition sampleVerify :: "string \<Rightarrow> string + payload" where
  "sampleVerify t =
     (if t = ''expired'' then Inl ''TokenExpiredError''
      else if t = ''garbage'' then Inl ''JsonWebTokenError''
      else Inr \<lparr> p_sub = ''1'', p_name = None, p_email = ''a@example.org'', p_role = t \<rparr>)"

definition sampleUsers :: "user list" where
  "sampleUsers =
     [\<lparr> u_id = ''1'', u_name = ''Asha'', u_email = ''asha@example.org'',
        u_password = ''hash:secret-one'', u_role = ''user'' \<rparr>]"

definition credentials :: "string \<Rightarrow> string \<Rightarrow> json" where
  "credentials e p = JObj [(''email'', JStr e), (''password'', JStr p)]"

definition registration :: "string \<Rightarrow> string \<Rightarrow> string \<Rightarrow> json" where
  "registration n e p = JObj [(''name'', JStr n), (''email'', JStr e), (''password'', JStr p)]"

definition sampleIsEmail :: "string \<Rightarrow> bool" where
  "sampleIsEmail s = (CHR ''@'' \<in> set s)"

definition sampleVerifyPassword :: "string \<Rightarrow> string \<Rightarrow> string + bool" where
  "sampleVerifyPassword p h = Inr (h = ''hash:'' @ p)"

definition sampleHash :: "string \<Rightarrow> string + string" where
  "sampleHash p = Inr (''hash:'' @ p)"

definition sampleSign :: "payload \<Rightarrow> string + string" where
  "sampleSign pl = Inr (''token-of-'' @ p_sub pl)"

text \<open>
  The normalisation in the words of its description, as one pass over the lowercased,
  stripped and trimmed title: every maximal run of white space and hyphens becomes one
  hyphen, every other character is kept. \<open>pending\<close> says that a run has been read and
  its hyphen is still to be written.
\<close>

fun hyphenateRuns :: "bool \<Rightarrow> string \<Rightarrow> string" where
  "hyphenateRuns pending [] = (if pending then ''-'' else [])"
| "hyphenateRuns pending (c # cs) =
     (if isSpace c \<or> isHyphen c then hyphenateRuns True cs
      else if pending then CHR ''-'' # c # hyphenateRuns False cs
      else c # hyphenateRuns False cs)"

definition isSeparator :: "char \<Rightarrow> bool" where
  "isSeparator c = (isSpace c \<or> isHyphen c)"

definition isSlugAlnum :: "char \<Rightarrow> bool" where
  "isSlugAlnum c = (isLowerAZ c \<or> isDigit c)"

definition strip :: "string \<Rightarrow> string" where
  "strip t = filter slugClass (toLowerCase t)"

text \<open>
  The \<open>k\<close>-th slug of the family of a base: the base itself, then \<open>base-2\<close>, \<open>base-3\<close>, ...
\<close>

definition nthSlug :: "string \<Rightarrow> nat \<Rightarrow> string" where
  "nthSlug base k = (if k \<le> 1 then base else base @ ''-'' @ decimal k)"

text \<open>Two neighbouring characters of a string that are both in a class.\<close>

fun adjacent :: "(char \<Rightarrow> bool) \<Rightarrow> string \<Rightarrow> bool" where
  "adjacent P (a # b # cs) = ((P a \<and> P b) \<or> adjacent P (b # cs))"
| "adjacent P cs = False"

text \<open>
  The store holds exactly the first \<open>m\<close> slugs of the family of a base.
\<close>

definition familyUpTo :: "string \<Rightarrow> nat \<Rightarrow> job list \<Rightarrow> bool" where
  "familyUpTo base m store =
     (\<forall>k. 1 \<le> k \<longrightarrow> Job_exists_slug store (nthSlug base k) = (k \<le> m))"

section \<open>Replacing runs, trimming\<close>

lemma replaceRuns_Nil_iff: "r \<noteq> [] \<Longrightarrow> (replaceRuns P r s = []) = (s = [])"
  by (cases s) auto

lemma set_replaceRuns: "set (replaceRuns P r s) \<subseteq> set r \<union> {c \<in> set s. \<not> P c}"
proof (induction P r s rule: replaceRuns.induct)
  case (1 P r)
  show ?case by simp
next
  case (2 P r c cs)
  show ?case
  proof (cases "P c")
    case True
    have "set (dropWhile P cs) \<subseteq> set cs" by (rule set_dropWhileD[THEN subsetI]) 
    with 2(1)[OF True] True show ?thesis by auto
  next
    case False
    with 2(2)[OF False] show ?thesis by auto
  qed
qed

lemma filter_replaceRuns:
  "(\<And>c. Q c \<Longrightarrow> \<not> P c) \<Longrightarrow> filter Q r = [] \<Longrightarrow> filter Q (replaceRuns P r s) = filter Q s"
proof (induction P r s rule: replaceRuns.induct)
  case (1 P r)
  show ?case by simp
next
  case (2 P r c cs)
  show ?case
  proof (cases "P c")
    case True
    have "filter Q (dropWhile P cs) = filter Q cs"
      using 2(3) by (induction cs) auto
    with 2(1)[OF True 2(3) 2(4)] True 2(3) 2(4) show ?thesis by auto
  next
    case False
    with 2(2)[OF False 2(3) 2(4)] show ?thesis by auto
  qed
qed

lemma filter_dropWhile_disj: "(\<And>c. Q c \<Longrightarrow> \<not> P c) \<Longrightarrow> filter Q (dropWhile P s) = filter Q s"
  by (induction s) auto

lemma filter_trim: "(\<And>c. Q c \<Longrightarrow> \<not> isSpace c) \<Longrightarrow> filter Q (trim s) = filter Q s"
proof -
  assume Q: "\<And>c. Q c \<Longrightarrow> \<not> isSpace c"
  have "filter Q (trim s) = rev (filter Q (dropWhile isSpace (rev (dropWhile isSpace s))))"
    by (simp add: trim_def rev_filter)
  also have "\<dots> = rev (filter Q (rev (dropWhile isSpace s)))"
    using Q by (simp add: filter_dropWhile_disj)
  also have "\<dots> = filter Q (dropWhile isSpace s)" by (simp add: rev_filter)
  also have "\<dots> = filter Q s" using Q by (simp add: filter_dropWhile_disj)
  finally show ?thesis .
qed

lemma last_replaceRuns:
  "s \<noteq> [] \<Longrightarrow> last (replaceRuns P [h] s) = (if P (last s) then h else last s)"
proof (induction P "[h]" s rule: replaceRuns.induct)
  case (1 P)
  then show ?case by simp
next
  case (2 P c cs)
  show ?case
  proof (cases "P c")
    case True
    show ?thesis
    proof (cases "dropWhile P cs = []")
      case True
      then have all: "\<forall>x \<in> set cs. P x" by simp
      have lastP: "P (last (c # cs))" using all \<open>P c\<close> by (cases cs) auto
      have "replaceRuns P [h] (c # cs) = [h]"
        using \<open>P c\<close> by (simp del: dropWhile_eq_Nil_conv add: True)
      with lastP show ?thesis by simp
    next
      case False
      then have cs: "cs \<noteq> []" by auto
      have l: "last (dropWhile P cs) = last cs" using False
        by (metis append_self_conv last_appendR takeWhile_dropWhile_id)
      have ne: "replaceRuns P [h] (dropWhile P cs) \<noteq> []" using False by (cases "dropWhile P cs") auto
      from 2(1)[OF True False] l ne cs True show ?thesis by simp
    qed
  next
    case False
    show ?thesis
    proof (cases cs)
      case Nil
      with False show ?thesis by simp
    next
      case (Cons d ds)
      then have ne: "replaceRuns P [h] cs \<noteq> []" by auto
      from 2(2)[OF False] Cons ne False show ?thesis by simp
    qed
  qed
qed

lemma adjacent_append:
  "P x \<Longrightarrow> P y \<Longrightarrow> adjacent P (u @ x # y # v)"
proof (induction u)
  case Nil then show ?case by simp
next
  case (Cons a u)
  then show ?case by (cases u) auto
qed

lemma not_adjacent_replaceRuns: "\<not> adjacent P (replaceRuns P [h] s)"
proof (induction P "[h]" s rule: replaceRuns.induct)
  case (1 P)
  show ?case by simp
next
  case (2 P c cs)
  show ?case
  proof (cases "P c")
    case True
    let ?d = "dropWhile P cs"
    show ?thesis
    proof (cases ?d)
      case Nil
      with True show ?thesis by (simp del: dropWhile_eq_Nil_conv)
    next
      case (Cons e es)
      then have "\<not> P e" by (metis hd_dropWhile list.sel(1) list.distinct(1))
      with 2(1)[OF True] True Cons show ?thesis by (simp del: dropWhile_eq_Nil_conv)
    qed
  next
    case False
    with 2(2)[OF False] show ?thesis
      by (cases "replaceRuns P [h] cs") auto
  qed
qed

lemma trim_Nil_or_edges:
  "trim s = [] \<or> (\<not> isSpace (hd (trim s)) \<and> \<not> isSpace (last (trim s)))"
proof (cases "dropWhile isSpace s = []")
  case True
  then show ?thesis by (simp add: trim_def del: dropWhile_eq_Nil_conv)
next
  case False
  let ?d = "dropWhile isSpace s"
  let ?e = "dropWhile isSpace (rev ?d)"
  have hd_d: "\<not> isSpace (hd ?d)" using False by (rule hd_dropWhile)
  have "last (rev ?d) = hd ?d" using False by (simp add: last_rev)
  then have "\<not> isSpace (last (rev ?d))" using hd_d by simp
  then have e_ne: "?e \<noteq> []" using False
    by (metis dropWhile_eq_Nil_conv last_in_set rev_is_Nil_conv)
  have hd_e: "\<not> isSpace (hd ?e)" using e_ne by (rule hd_dropWhile)
  have "last ?e = last (rev ?d)" using e_ne
    by (metis append_self_conv last_appendR takeWhile_dropWhile_id)
  then have last_e: "\<not> isSpace (last ?e)" using \<open>\<not> isSpace (last (rev ?d))\<close> by simp
  have t: "trim s = rev ?e" by (simp add: trim_def)
  have "hd (trim s) = last ?e" using e_ne by (simp add: t hd_rev)
  moreover have "last (trim s) = hd ?e" using e_ne by (simp add: t last_rev)
  ultimately show ?thesis using hd_e last_e by simp
qed

lemma take1_hd: "s \<noteq> [] \<Longrightarrow> take 1 s = [hd s]"
  by (cases s) auto

lemma take1_rev_last: "s \<noteq> [] \<Longrightarrow> take 1 (rev s) = [last s]"
  by (cases s rule: rev_cases) auto

lemma edges_replaceRuns:
  assumes "s \<noteq> []" "\<not> P (hd s) \<or> hd s = h" "\<not> P (last s) \<or> last s = h"
  shows "replaceRuns P [h] s \<noteq> [] \<and> hd (replaceRuns P [h] s) = hd s
         \<and> last (replaceRuns P [h] s) = last s"
proof -
  have ne: "replaceRuns P [h] s \<noteq> []" using assms(1) by (cases s) auto
  have "hd (replaceRuns P [h] s) = hd s" using assms(1,2) by (cases s) auto
  moreover have "last (replaceRuns P [h] s) = last s"
    using last_replaceRuns[OF assms(1), of P h] assms(3) by auto
  ultimately show ?thesis using ne by simp
qed

lemma slugify_edges:
  defines "T \<equiv> \<lambda>t. trim (filter slugClass (toLowerCase t))"
  shows "(slugify t = []) = (T t = [])"
    and "take 1 (slugify t) = take 1 (T t)"
    and "take 1 (rev (slugify t)) = take 1 (rev (T t))"
proof -
  have s: "slugify t = replaceRuns isHyphen ''-'' (replaceRuns isSpace ''-'' (T t))"
    by (simp add: slugify_def T_def)
  show e: "(slugify t = []) = (T t = [])"
    by (simp add: s replaceRuns_Nil_iff)
  have "T t \<noteq> [] \<Longrightarrow> hd (slugify t) = hd (T t) \<and> last (slugify t) = last (T t)"
  proof -
    assume ne: "T t \<noteq> []"
    have ed: "\<not> isSpace (hd (T t)) \<and> \<not> isSpace (last (T t))"
      using trim_Nil_or_edges[of "filter slugClass (toLowerCase t)"] ne by (simp add: T_def)
    have a: "replaceRuns isSpace ''-'' (T t) \<noteq> [] \<and> hd (replaceRuns isSpace ''-'' (T t)) = hd (T t)
         \<and> last (replaceRuns isSpace ''-'' (T t)) = last (T t)"
      using edges_replaceRuns[OF ne, of isSpace "CHR ''-''"] ed by simp
    have b: "hd (replaceRuns isHyphen ''-'' (replaceRuns isSpace ''-'' (T t))) = hd (replaceRuns isSpace ''-'' (T t))
         \<and> last (replaceRuns isHyphen ''-'' (replaceRuns isSpace ''-'' (T t))) = last (replaceRuns isSpace ''-'' (T t))"
      using edges_replaceRuns[of "replaceRuns isSpace ''-'' (T t)" isHyphen "CHR ''-''"] a
      by (auto simp: isHyphen_def)
    show ?thesis using a b by (simp add: s)
  qed
  then have hl: "T t \<noteq> [] \<Longrightarrow> hd (slugify t) = hd (T t) \<and> last (slugify t) = last (T t)" .
  show "take 1 (slugify t) = take 1 (T t)"
  proof (cases "T t = []")
    case True
    with e show ?thesis by simp
  next
    case False
    with e have "slugify t \<noteq> []" by simp
    have ne: "slugify t \<noteq> []" using e False by simp
    have "hd (slugify t) = hd (T t)" using hl False by blast
    then show ?thesis unfolding take1_hd[OF ne] take1_hd[OF False] by (rule arg_cong)
  qed
  show "take 1 (rev (slugify t)) = take 1 (rev (T t))"
  proof (cases "T t = []")
    case True
    with e show ?thesis by simp
  next
    case False
    with e have "slugify t \<noteq> []" by simp
    have ne: "slugify t \<noteq> []" using e False by simp
    have "last (slugify t) = last (T t)" using hl False by blast
    then show ?thesis unfolding take1_rev_last[OF ne] take1_rev_last[OF False] by (rule arg_cong)
  qed
qed

lemma slugify_chars: "list_all (\<lambda>c. isLowerAZ c \<or> isDigit c \<or> isHyphen c) (slugify t)"
proof -
  let ?T = "trim (filter slugClass (toLowerCase t))"
  have T: "set ?T \<subseteq> {c. slugClass c}"
  proof -
    have "set ?T \<subseteq> set (filter slugClass (toLowerCase t))"
      unfolding trim_def using set_dropWhileD by (metis set_rev subsetI)
    then show ?thesis by auto
  qed
  have "set (replaceRuns isSpace ''-'' ?T) \<subseteq> {c. isLowerAZ c \<or> isDigit c \<or> isHyphen c}"
    using set_replaceRuns[of isSpace "''-''" ?T] T by (auto simp: slugClass_def isHyphen_def)
  then have "set (slugify t) \<subseteq> {c. isLowerAZ c \<or> isDigit c \<or> isHyphen c}"
    using set_replaceRuns[of isHyphen "''-''" "replaceRuns isSpace ''-'' ?T"]
    by (auto simp: slugify_def isHyphen_def)
  then show ?thesis by (auto simp: list_all_iff)
qed

lemma slugify_no_double_hyphen: "\<not> (\<exists>u v. slugify t = u @ ''--'' @ v)"
proof
  assume "\<exists>u v. slugify t = u @ ''--'' @ v"
  then obtain u v where "slugify t = u @ CHR ''-'' # CHR ''-'' # v" by auto
  then have "adjacent isHyphen (slugify t)"
    using adjacent_append[of isHyphen "CHR ''-''" "CHR ''-''" u v] by (simp add: isHyphen_def)
  then show False using not_adjacent_replaceRuns[of isHyphen "CHR ''-''"] by (simp add: slugify_def)
qed

lemma slugify_alnum:
  "filter (\<lambda>c. isLowerAZ c \<or> isDigit c) (slugify t) = filter (\<lambda>c. isLowerAZ c \<or> isDigit c) (toLowerCase t)"
proof -
  let ?Q = "\<lambda>c. isLowerAZ c \<or> isDigit c"
  have sp: "\<And>c. ?Q c \<Longrightarrow> \<not> isSpace c" by (auto simp: isLowerAZ_def isDigit_def isSpace_def)
  have hy: "\<And>c. ?Q c \<Longrightarrow> \<not> isHyphen c" by (auto simp: isLowerAZ_def isDigit_def isHyphen_def)
  have q: "filter ?Q ''-'' = []" by (simp add: isLowerAZ_def isDigit_def)
  have "filter ?Q (slugify t) = filter ?Q (replaceRuns isSpace ''-'' (trim (filter slugClass (toLowerCase t))))"
    unfolding slugify_def using filter_replaceRuns[of ?Q isHyphen "''-''"] hy q by blast
  also have "\<dots> = filter ?Q (trim (filter slugClass (toLowerCase t)))"
    using filter_replaceRuns[of ?Q isSpace "''-''"] sp q by blast
  also have "\<dots> = filter ?Q (filter slugClass (toLowerCase t))"
    using filter_trim[of ?Q] sp by blast
  also have "\<dots> = filter ?Q (toLowerCase t)"
    by (simp add: slugClass_def) (rule filter_cong, auto)
  finally show ?thesis .
qed


section \<open>The normalisation as one pass\<close>

lemma collapse_hyphen_twice:
  "replaceRuns isHyphen ''-'' (CHR ''-'' # CHR ''-'' # x) = replaceRuns isHyphen ''-'' (CHR ''-'' # x)"
  by (simp add: isHyphen_def)

lemma hyphenateRuns_True_dropWhile:
  "hyphenateRuns True (dropWhile isSpace cs) = hyphenateRuns True cs"
  by (induction cs) auto

lemma two_passes_aux:
  "length s \<le> n \<Longrightarrow>
     replaceRuns isHyphen ''-'' (replaceRuns isSpace ''-'' s) = hyphenateRuns False s
     \<and> replaceRuns isHyphen ''-'' (CHR ''-'' # replaceRuns isSpace ''-'' s) = hyphenateRuns True s"
proof (induction n arbitrary: s)
  case 0
  then show ?case by (simp add: isHyphen_def)
next
  case (Suc n)
  show ?case
  proof (cases s)
    case Nil
    then show ?thesis by (simp add: isHyphen_def)
  next
    case (Cons c cs)
    have len: "length cs \<le> n" using Suc.prems Cons by simp
    show ?thesis
    proof (cases "isSpace c")
      case True
      have "length (dropWhile isSpace cs) \<le> n"
        using len length_dropWhile_le[of isSpace cs] by simp
      from Suc.IH[OF this] have
        ih: "replaceRuns isHyphen ''-'' (CHR ''-'' # replaceRuns isSpace ''-'' (dropWhile isSpace cs))
              = hyphenateRuns True (dropWhile isSpace cs)" by simp
      have S: "replaceRuns isSpace ''-'' s = CHR ''-'' # replaceRuns isSpace ''-'' (dropWhile isSpace cs)"
        using True Cons by simp
      have h: "hyphenateRuns False s = hyphenateRuns True cs" "hyphenateRuns True s = hyphenateRuns True cs"
        using True Cons by simp_all
      show ?thesis unfolding S collapse_hyphen_twice ih h hyphenateRuns_True_dropWhile by simp
    next
      case False
      note ns = False
      from Suc.IH[OF len] have
        ih1: "replaceRuns isHyphen ''-'' (replaceRuns isSpace ''-'' cs) = hyphenateRuns False cs"
        and ih2: "replaceRuns isHyphen ''-'' (CHR ''-'' # replaceRuns isSpace ''-'' cs) = hyphenateRuns True cs"
        by simp_all
      have S: "replaceRuns isSpace ''-'' s = c # replaceRuns isSpace ''-'' cs"
        using ns Cons by simp
      show ?thesis
      proof (cases "isHyphen c")
        case True
        then have c: "c = CHR ''-''" by (simp add: isHyphen_def)
        have h: "hyphenateRuns False s = hyphenateRuns True cs" "hyphenateRuns True s = hyphenateRuns True cs"
          using True Cons by simp_all
        show ?thesis unfolding S c collapse_hyphen_twice ih2 h[unfolded c] by simp
      next
        case False
        have a: "replaceRuns isHyphen ''-'' (c # replaceRuns isSpace ''-'' cs)
                  = c # hyphenateRuns False cs"
          using False ih1 by simp
        have b: "replaceRuns isHyphen ''-'' (CHR ''-'' # c # replaceRuns isSpace ''-'' cs)
                  = CHR ''-'' # c # hyphenateRuns False cs"
          using False ih1 by (simp add: isHyphen_def)
        show ?thesis unfolding S using a b ns False Cons by simp
      qed
    qed
  qed
qed

lemma two_passes:
  "replaceRuns isHyphen ''-'' (replaceRuns isSpace ''-'' s) = hyphenateRuns False s"
  using two_passes_aux[of s "length s"] by simp

lemma slugify_hyphenateRuns:
  "slugify t = hyphenateRuns False (trim (filter slugClass (toLowerCase t)))"
  by (simp add: slugify_def two_passes)

lemma alnum_facts:
  "isSlugAlnum c \<Longrightarrow> \<not> isSpace c \<and> \<not> isHyphen c \<and> \<not> isUpper c \<and> slugClass c"
  by (auto simp: isSlugAlnum_def isLowerAZ_def isDigit_def isSpace_def isHyphen_def isUpper_def
      slugClass_def Let_def)

lemma separator_facts:
  "isSeparator c \<Longrightarrow> \<not> isUpper c \<and> slugClass c"
  by (auto simp: isSeparator_def isSpace_def isHyphen_def isUpper_def slugClass_def Let_def)

lemma strip_append: "strip (a @ b) = strip a @ strip b"
  by (simp add: strip_def toLowerCase_def)

lemma strip_alnum: "isSlugAlnum c \<Longrightarrow> strip [c] = [c]"
  using alnum_facts[of c] by (simp add: strip_def toLowerCase_def lowerChar_def)

lemma strip_separators: "list_all isSeparator s \<Longrightarrow> strip s = s"
proof (induction s)
  case Nil
  show ?case by (simp add: strip_def toLowerCase_def)
next
  case (Cons c s)
  then have "strip s = s" by simp
  moreover have "strip [c] = [c]"
    using separator_facts[of c] Cons.prems by (simp add: strip_def toLowerCase_def lowerChar_def)
  ultimately show ?case using strip_append[of "[c]" s] by simp
qed

lemma strip_alnums: "list_all isSlugAlnum w \<Longrightarrow> strip w = w"
proof (induction w)
  case Nil
  show ?case by (simp add: strip_def toLowerCase_def)
next
  case (Cons c w)
  then have "strip w = w" by simp
  moreover have "strip [c] = [c]" using strip_alnum Cons.prems by simp
  ultimately show ?case using strip_append[of "[c]" w] by simp
qed

lemma dropWhile_snoc_nonspace:
  "\<not> isSpace a \<Longrightarrow> dropWhile isSpace (x @ a # y) = dropWhile isSpace (x @ [a]) @ y"
  by (induction x) auto

lemma dropWhile_ends: "\<not> isSpace a \<Longrightarrow> \<exists>z. dropWhile isSpace (x @ [a]) = z @ [a]"
  by (induction x) auto

lemma trim_left_part:
  assumes "\<not> isSpace a"
  shows "trim (x @ [a]) = dropWhile isSpace (x @ [a])"
proof -
  from dropWhile_ends[OF assms, of x] obtain z where z: "dropWhile isSpace (x @ [a]) = z @ [a]"
    by blast
  show ?thesis using assms by (simp add: trim_def z)
qed

lemma trim_right_part:
  assumes "\<not> isSpace b"
  shows "trim (b # y) = rev (dropWhile isSpace (rev (b # y)))"
  using assms by (simp add: trim_def)

lemma trim_middle:
  assumes "\<not> isSpace a" "\<not> isSpace b"
  shows "trim (x @ [a] @ m @ b # y) = trim (x @ [a]) @ m @ trim (b # y)"
proof -
  have l: "dropWhile isSpace (x @ [a] @ m @ b # y) = dropWhile isSpace (x @ [a]) @ m @ b # y"
    using dropWhile_snoc_nonspace[OF assms(1), of x "m @ b # y"] by simp
  have "rev (dropWhile isSpace (x @ [a]) @ m @ b # y)
          = rev (b # y) @ rev m @ rev (dropWhile isSpace (x @ [a]))" by simp
  moreover have "rev (b # y) = rev y @ [b]" by simp
  ultimately have r: "dropWhile isSpace (rev (dropWhile isSpace (x @ [a]) @ m @ b # y))
          = dropWhile isSpace (rev y @ [b]) @ rev m @ rev (dropWhile isSpace (x @ [a]))"
    using dropWhile_snoc_nonspace[OF assms(2), of "rev y" "rev m @ rev (dropWhile isSpace (x @ [a]))"]
    by simp
  have "trim (x @ [a] @ m @ b # y)
          = rev (dropWhile isSpace (rev y @ [b]) @ rev m @ rev (dropWhile isSpace (x @ [a])))"
    unfolding trim_def l r ..
  also have "\<dots> = dropWhile isSpace (x @ [a]) @ m @ rev (dropWhile isSpace (rev y @ [b]))"
    by simp
  also have "\<dots> = trim (x @ [a]) @ m @ trim (b # y)"
    using trim_left_part[OF assms(1), of x] trim_right_part[OF assms(2), of y] by simp
  finally show ?thesis .
qed

lemma trim_keeps_last: "\<not> isSpace a \<Longrightarrow> \<exists>z. trim (x @ [a]) = z @ [a]"
  using trim_left_part[of a x] dropWhile_ends[of a x] by simp

lemma trim_keeps_first: "\<not> isSpace b \<Longrightarrow> \<exists>z. trim (b # y) = b # z"
proof -
  assume b: "\<not> isSpace b"
  from dropWhile_ends[OF b, of "rev y"] obtain z where "dropWhile isSpace (rev y @ [b]) = z @ [b]"
    by blast
  then show ?thesis using b by (simp add: trim_def)
qed

lemma hyphenateRuns_after_word:
  "\<not> isSpace a \<Longrightarrow> \<not> isHyphen a \<Longrightarrow>
     hyphenateRuns p (x @ a # r) = hyphenateRuns p (x @ [a]) @ hyphenateRuns False r"
  by (induction x arbitrary: p) auto

lemma hyphenateRuns_separators:
  "s \<noteq> [] \<Longrightarrow> list_all isSeparator s \<Longrightarrow> hyphenateRuns p (s @ r) = hyphenateRuns True r"
proof (induction s arbitrary: p)
  case Nil
  then show ?case by simp
next
  case (Cons c s)
  show ?case
  proof (cases "s = []")
    case True
    with Cons.prems show ?thesis by (simp add: isSeparator_def)
  next
    case False
    with Cons show ?thesis by (simp add: isSeparator_def)
  qed
qed

lemma hyphenateRuns_pending_word:
  "\<not> isSpace b \<Longrightarrow> \<not> isHyphen b \<Longrightarrow>
     hyphenateRuns True (b # y) = CHR ''-'' # hyphenateRuns False (b # y)"
  by simp

lemma hyphenateRuns_word: "list_all isSlugAlnum w \<Longrightarrow> hyphenateRuns False w = w"
proof (induction w)
  case Nil
  show ?case by simp
next
  case (Cons c w)
  then show ?case using alnum_facts[of c] by simp
qed

lemma trim_word: "list_all isSlugAlnum w \<Longrightarrow> trim w = w"
proof (cases w rule: rev_cases)
  case Nil
  then show ?thesis by (simp add: trim_def)
next
  case (snoc ys y)
  assume a: "list_all isSlugAlnum w"
  show ?thesis
  proof (cases w)
    case Nil
    then show ?thesis by (simp add: trim_def)
  next
    case (Cons c cs)
    have c: "\<not> isSpace c" using a Cons alnum_facts[of c] by simp
    have y: "\<not> isSpace y" using a snoc alnum_facts[of y] by simp
    have "dropWhile isSpace w = w" using c Cons by simp
    moreover have "dropWhile isSpace (rev w) = rev w" using y snoc by simp
    ultimately show ?thesis by (simp add: trim_def)
  qed
qed

lemma slugify_word: "list_all isSlugAlnum w \<Longrightarrow> slugify w = w"
  using slugify_hyphenateRuns[of w] strip_alnums[of w] trim_word[of w] hyphenateRuns_word[of w]
  by (simp add: strip_def)

lemma slugify_joins_words:
  assumes a: "isSlugAlnum a" and b: "isSlugAlnum b"
    and s: "s \<noteq> []" "list_all isSeparator s"
  shows "slugify (u @ [a] @ s @ [b] @ v) = slugify (u @ [a]) @ ''-'' @ slugify ([b] @ v)"
proof -
  note fa = alnum_facts[OF a] and fb = alnum_facts[OF b]
  have st: "strip (u @ [a] @ s @ [b] @ v) = strip u @ [a] @ s @ b # strip v"
    unfolding strip_append strip_alnum[OF a] strip_alnum[OF b] strip_separators[OF s(2)] by simp
  have su: "strip (u @ [a]) = strip u @ [a]"
    unfolding strip_append strip_alnum[OF a] ..
  have sv: "strip ([b] @ v) = b # strip v"
    unfolding strip_append strip_alnum[OF b] by simp
  obtain zu where zu: "trim (strip u @ [a]) = zu @ [a]" using trim_keeps_last fa by blast
  obtain zv where zv: "trim (b # strip v) = b # zv" using trim_keeps_first fb by blast
  have tm: "trim (strip u @ [a] @ s @ b # strip v) = zu @ [a] @ s @ b # zv"
    using trim_middle[of a b "strip u" s "strip v"] fa fb zu zv by simp
  have "slugify (u @ [a] @ s @ [b] @ v) = hyphenateRuns False (zu @ a # (s @ b # zv))"
    using slugify_hyphenateRuns[of "u @ [a] @ s @ [b] @ v"] st tm by (simp add: strip_def)
  also have "\<dots> = hyphenateRuns False (zu @ [a]) @ hyphenateRuns False (s @ b # zv)"
    using hyphenateRuns_after_word fa by blast
  also have "hyphenateRuns False (s @ b # zv) = hyphenateRuns True (b # zv)"
    by (rule hyphenateRuns_separators[OF s])
  also have "\<dots> = CHR ''-'' # hyphenateRuns False (b # zv)"
    using hyphenateRuns_pending_word fb by blast
  finally have "slugify (u @ [a] @ s @ [b] @ v)
      = hyphenateRuns False (zu @ [a]) @ ''-'' @ hyphenateRuns False (b # zv)" by simp
  moreover have "slugify (u @ [a]) = hyphenateRuns False (zu @ [a])"
    using slugify_hyphenateRuns[of "u @ [a]"] su zu by (simp add: strip_def)
  moreover have "slugify ([b] @ v) = hyphenateRuns False (b # zv)"
    using slugify_hyphenateRuns[of "[b] @ v"] sv zv by (simp add: strip_def)
  ultimately show ?thesis by simp
qed

section \<open>Decimal digits and the probing loop\<close>

lemma decimal_ne: "decimal n \<noteq> []"
  by (subst decimal.simps) simp

lemma digitChar_inj: "a < 10 \<Longrightarrow> b < 10 \<Longrightarrow> digitChar a = digitChar b \<Longrightarrow> a = b"
proof -
  assume a: "a < 10" and b: "b < 10" and e: "digitChar a = digitChar b"
  have "(of_char (digitChar a) :: nat) = of_char (digitChar b)" using e by simp
  then have "(48 + a) mod 256 = (48 + b) mod 256" by (simp add: digitChar_def)
  with a b show ?thesis by simp
qed

lemma decimal_inj: "decimal m = decimal n \<Longrightarrow> m = n"
proof (induction m arbitrary: n rule: decimal.induct)
  case (1 m)
  show ?case
  proof (cases "m < 10")
    case True
    then have dm: "decimal m = [digitChar m]" by (subst decimal.simps) simp
    show ?thesis
    proof (cases "n < 10")
      case True
      then have "decimal n = [digitChar n]" by (subst decimal.simps) simp
      with dm 1(2) \<open>m < 10\<close> True show ?thesis by (simp add: digitChar_inj)
    next
      case False
      then have "decimal n = decimal (n div 10) @ [digitChar (n mod 10)]"
        by (subst decimal.simps) simp
      with dm 1(2) decimal_ne[of "n div 10"] show ?thesis by (cases "decimal (n div 10)") auto
    qed
  next
    case False
    then have dm: "decimal m = decimal (m div 10) @ [digitChar (m mod 10)]"
      by (subst decimal.simps) simp
    show ?thesis
    proof (cases "n < 10")
      case True
      then have "decimal n = [digitChar n]" by (subst decimal.simps) simp
      with dm 1(2) decimal_ne[of "m div 10"] show ?thesis by (cases "decimal (m div 10)") auto
    next
      case nf: False
      then have dn: "decimal n = decimal (n div 10) @ [digitChar (n mod 10)]"
        by (subst decimal.simps) simp
      from dm dn 1(2) have a: "decimal (m div 10) = decimal (n div 10)"
        and b: "digitChar (m mod 10) = digitChar (n mod 10)" by auto
      from 1(1)[OF False a] have "m div 10 = n div 10" .
      moreover from b have "m mod 10 = n mod 10" by (intro digitChar_inj) auto
      ultimately show ?thesis by (metis div_mult_mod_eq)
    qed
  qed
qed

lemma nthSlug_inj: "1 \<le> j \<Longrightarrow> 1 \<le> k \<Longrightarrow> nthSlug base j = nthSlug base k \<Longrightarrow> j = k"
  by (auto simp: nthSlug_def dest: decimal_inj split: if_splits)

lemma probeLoop_finds:
  assumes "1 \<le> j" "j \<le> Suc m"
    and "\<forall>k. j \<le> k \<and> k \<le> m \<longrightarrow> Job_exists_slug store (nthSlug base k)"
    and "\<not> Job_exists_slug store (nthSlug base (Suc m))"
  shows "probeLoop store base (nthSlug base j) (Suc j) = Some (nthSlug base (Suc m))"
  using assms
proof (induction "Suc m - j" arbitrary: j)
  case 0
  then have "j = Suc m" by simp
  with 0 show ?case by (subst probeLoop.simps) simp
next
  case (Suc d)
  then have jm: "j \<le> m" by simp
  with Suc.prems have ex: "Job_exists_slug store (nthSlug base j)" by blast
  have nx: "base @ ''-'' @ decimal (Suc j) = nthSlug base (Suc j)"
    using Suc.prems(1) by (simp add: nthSlug_def)
  have "probeLoop store base (nthSlug base (Suc j)) (Suc (Suc j)) = Some (nthSlug base (Suc m))"
  proof (rule Suc.hyps(1))
    show "d = Suc m - Suc j" using Suc.hyps(2) by simp
    show "1 \<le> Suc j" by simp
    show "Suc j \<le> Suc m" using jm by simp
    show "\<forall>k. Suc j \<le> k \<and> k \<le> m \<longrightarrow> Job_exists_slug store (nthSlug base k)"
      using Suc.prems(3) by auto
    show "\<not> Job_exists_slug store (nthSlug base (Suc m))" by (rule Suc.prems(4))
  qed
  then show ?case using ex nx by (subst probeLoop.simps) simp
qed

lemma first_free_slug:
  "\<exists>m. (\<forall>k. 1 \<le> k \<and> k \<le> m \<longrightarrow> Job_exists_slug store (nthSlug base k))
       \<and> \<not> Job_exists_slug store (nthSlug base (Suc m))"
proof -
  let ?free = "\<lambda>k. 1 \<le> k \<and> \<not> Job_exists_slug store (nthSlug base k)"
  have "\<exists>k. ?free k"
  proof (rule ccontr)
    assume "\<not> (\<exists>k. ?free k)"
    then have sub: "nthSlug base ` {1..} \<subseteq> set (map slug store)"
      by (auto simp: Job_exists_slug_def)
    have "inj_on (nthSlug base) {1..}"
      by (rule inj_onI) (simp, rule nthSlug_inj, simp_all)
    then have "infinite (nthSlug base ` {1..})"
      by (simp add: finite_image_iff infinite_Ici)
    with sub show False using finite_subset by blast
  qed
  then obtain k where k: "?free k" by blast
  define n where "n = (LEAST k. ?free k)"
  have fn: "?free n" unfolding n_def using k by (rule LeastI)
  have below: "\<And>i. 1 \<le> i \<Longrightarrow> i < n \<Longrightarrow> Job_exists_slug store (nthSlug base i)"
    using not_less_Least[of _ ?free] unfolding n_def by blast
  from fn obtain m where m: "n = Suc m" by (cases n) auto
  show ?thesis using fn below unfolding m by (intro exI[of _ m]) auto
qed

lemma probeLoop_returns:
  "\<exists>m. probeLoop store base base 2 = Some (nthSlug base (Suc m))
       \<and> (\<forall>k. 1 \<le> k \<and> k \<le> m \<longrightarrow> Job_exists_slug store (nthSlug base k))
       \<and> \<not> Job_exists_slug store (nthSlug base (Suc m))"
proof -
  from first_free_slug[of store base] obtain m where
    m: "\<forall>k. 1 \<le> k \<and> k \<le> m \<longrightarrow> Job_exists_slug store (nthSlug base k)"
       "\<not> Job_exists_slug store (nthSlug base (Suc m))" by blast
  have "probeLoop store base (nthSlug base 1) (Suc 1) = Some (nthSlug base (Suc m))"
    by (rule probeLoop_finds) (use m in auto)
  then have "probeLoop store base base 2 = Some (nthSlug base (Suc m))"
    by (simp add: nthSlug_def numeral_2_eq_2)
  with m show ?thesis by blast
qed

lemma nthSlug_ne: "base \<noteq> [] \<Longrightarrow> nthSlug base k \<noteq> []"
  by (simp add: nthSlug_def)

lemma ensureUniqueSlug_returns:
  "\<exists>s. ensureUniqueSlug store now t = Some s \<and> s \<noteq> []"
proof (cases "slugify t = []")
  case True
  then show ?thesis by (simp add: ensureUniqueSlug_def)
next
  case False
  from probeLoop_returns[of store "slugify t"] obtain m where
    "probeLoop store (slugify t) (slugify t) 2 = Some (nthSlug (slugify t) (Suc m))" by blast
  with False show ?thesis by (simp add: ensureUniqueSlug_def Let_def nthSlug_ne)
qed

section \<open>Sequential creation\<close>

lemma Job_create_Inr:
  "Job_create i t doc store = Inr (d, store') \<Longrightarrow>
     store' = store @ [d] \<and> slug d = slug doc \<and> isExpired d = isExpired doc \<and> oid d = i"
  by (auto simp: Job_create_def Let_def split: if_splits)

lemma ensureUniqueSlug_family:
  assumes "slugify t = base" "base \<noteq> []"
    and "\<forall>k. 1 \<le> k \<and> k \<le> m \<longrightarrow> Job_exists_slug store (nthSlug base k)"
    and "\<not> Job_exists_slug store (nthSlug base (Suc m))"
  shows "ensureUniqueSlug store now t = Some (nthSlug base (Suc m))"
proof -
  have "probeLoop store base (nthSlug base 1) (Suc 1) = Some (nthSlug base (Suc m))"
    by (rule probeLoop_finds) (use assms in auto)
  then have "probeLoop store base base 2 = Some (nthSlug base (Suc m))"
    by (simp add: nthSlug_def numeral_2_eq_2)
  with assms(1,2) show ?thesis by (simp add: ensureUniqueSlug_def Let_def)
qed

lemma familyUpTo_snoc:
  assumes "familyUpTo base m store" "slug d = nthSlug base (Suc m)"
  shows "familyUpTo base (Suc m) (store @ [d])"
  unfolding familyUpTo_def
proof (intro allI impI)
  fix k :: nat
  assume k: "1 \<le> k"
  have old: "Job_exists_slug store (nthSlug base k) = (k \<le> m)"
    using assms(1) k by (simp add: familyUpTo_def)
  have "(nthSlug base k = nthSlug base (Suc m)) = (k = Suc m)"
    using nthSlug_inj[of k "Suc m" base] k by auto
  then show "Job_exists_slug (store @ [d]) (nthSlug base k) = (k \<le> Suc m)"
    using old assms(2) by (auto simp: Job_exists_slug_def)
qed

lemma jobs_post_family_step:
  assumes base: "base \<noteq> []"
    and parse: "jobInputSchema isUrl body = Some d" "slugify (in_title d) = base"
    and inv: "familyUpTo base m store"
  shows "(\<exists>i doc. jobs_post isUrl parseDate c body store
                    = Some (Ok 200 (i, nthSlug base (Suc m)), store @ [doc])
                 \<and> slug doc = nthSlug base (Suc m))
       \<or> (\<exists>code msg. jobs_post isUrl parseDate c body store = Some (Fail code msg, store))"
proof -
  have taken: "\<forall>k. 1 \<le> k \<and> k \<le> m \<longrightarrow> Job_exists_slug store (nthSlug base k)"
    and free: "\<not> Job_exists_slug store (nthSlug base (Suc m))"
    using inv by (auto simp: familyUpTo_def)
  have eu: "ensureUniqueSlug store (clock c) (in_title d) = Some (nthSlug base (Suc m))"
    by (rule ensureUniqueSlug_family[OF parse(2) base taken free])
  let ?doc = "newJob d (nthSlug base (Suc m)) (toDate parseDate (in_startDate d))
                (toDate parseDate (in_lastDate d))"
  show ?thesis
  proof (cases "Job_create (freshId c) (clock c) ?doc store")
    case (Inl e)
    then show ?thesis using parse(1) eu
      by (cases e) (simp_all add: jobs_post_def)
  next
    case (Inr p)
    obtain doc store' where p: "p = (doc, store')" by (cases p)
    from Job_create_Inr[OF Inr[unfolded p]] have
      s: "store' = store @ [doc]" and sl: "slug doc = slug ?doc" by auto
    have sl': "slug doc = nthSlug base (Suc m)" using sl by (simp add: newJob_def)
    have "jobs_post isUrl parseDate c body store
            = Some (Ok 200 (oid doc, nthSlug base (Suc m)), store @ [doc])"
      using parse(1) eu Inr p s sl' by (simp add: jobs_post_def)
    with sl' show ?thesis by blast
  qed
qed

lemma createAll_family:
  assumes base: "base \<noteq> []"
    and calls: "\<forall>(c, body) \<in> set calls. \<exists>d. jobInputSchema isUrl body = Some d \<and> slugify (in_title d) = base"
    and inv: "familyUpTo base m store"
  shows "\<exists>rs store'. createAll isUrl parseDate calls store = Some (rs, store')
           \<and> assignedSlugs rs = map (nthSlug base) [Suc m ..< Suc m + length (assignedSlugs rs)]
           \<and> map slug store' = map slug store @ assignedSlugs rs"
  using calls inv
proof (induction calls arbitrary: store m)
  case Nil
  show ?case by simp
next
  case (Cons cb calls)
  obtain c body where cb: "cb = (c, body)" by (cases cb)
  from Cons.prems(1) cb obtain d where
    d: "jobInputSchema isUrl body = Some d" "slugify (in_title d) = base" by auto
  have rest: "\<forall>(c, body) \<in> set calls. \<exists>d. jobInputSchema isUrl body = Some d \<and> slugify (in_title d) = base"
    using Cons.prems(1) by auto
  from jobs_post_family_step[OF base d Cons.prems(2), of parseDate c]
  consider (ok) i doc where
      "jobs_post isUrl parseDate c body store = Some (Ok 200 (i, nthSlug base (Suc m)), store @ [doc])"
      "slug doc = nthSlug base (Suc m)"
    | (fail) code msg where
      "jobs_post isUrl parseDate c body store = Some (Fail code msg, store)"
    by blast
  then show ?case
  proof cases
    case ok
    have inv': "familyUpTo base (Suc m) (store @ [doc])"
      by (rule familyUpTo_snoc[OF Cons.prems(2) ok(2)])
    from Cons.IH[OF rest inv'] obtain rs store' where
      r: "createAll isUrl parseDate calls (store @ [doc]) = Some (rs, store')"
         "assignedSlugs rs = map (nthSlug base) [Suc (Suc m) ..< Suc (Suc m) + length (assignedSlugs rs)]"
         "map slug store' = map slug (store @ [doc]) @ assignedSlugs rs" by blast
    let ?rs = "Ok 200 (i, nthSlug base (Suc m)) # rs"
    have a: "createAll isUrl parseDate (cb # calls) store = Some (?rs, store')"
      using ok(1) r(1) cb by simp
    have len: "length (assignedSlugs ?rs) = Suc (length (assignedSlugs rs))" by simp
    have ar: "Suc m + Suc (length (assignedSlugs rs)) = Suc (Suc m) + length (assignedSlugs rs)"
      by simp
    have "[Suc m ..< Suc m + Suc (length (assignedSlugs rs))]
            = Suc m # [Suc (Suc m) ..< Suc m + Suc (length (assignedSlugs rs))]"
      by (rule upt_conv_Cons) simp
    then have up: "[Suc m ..< Suc m + Suc (length (assignedSlugs rs))]
            = Suc m # [Suc (Suc m) ..< Suc (Suc m) + length (assignedSlugs rs)]"
      unfolding ar .
    have hd: "assignedSlugs ?rs = nthSlug base (Suc m) # assignedSlugs rs" by simp
    have b: "assignedSlugs ?rs = map (nthSlug base) [Suc m ..< Suc m + length (assignedSlugs ?rs)]"
      unfolding len up unfolding hd list.map using r(2) by (rule arg_cong)
    have c: "map slug store' = map slug store @ assignedSlugs ?rs"
      using r(3) ok(2) by simp
    from a b c show ?thesis by blast
  next
    case fail
    from Cons.IH[OF rest Cons.prems(2)] obtain rs store' where
      r: "createAll isUrl parseDate calls store = Some (rs, store')"
         "assignedSlugs rs = map (nthSlug base) [Suc m ..< Suc m + length (assignedSlugs rs)]"
         "map slug store' = map slug store @ assignedSlugs rs" by blast
    have a: "createAll isUrl parseDate (cb # calls) store = Some (Fail code msg # rs, store')"
      using fail r(1) cb by simp
    from a r(2,3) show ?thesis by auto
  qed
qed

section \<open>The two copies of the slug code agree\<close>

lemma slugifyInput_eq: "slugifyInput t = slugify t"
  by (simp add: slugifyInput_def slugify_def)

lemma ensureUniqueSlug_admin_eq:
  "ensureUniqueSlug_admin store now t = ensureUniqueSlug store now t"
  by (simp add: ensureUniqueSlug_admin_def ensureUniqueSlug_def slugifyInput_eq)

lemma jobInputSchema_listingBody:
  "jobInputSchema isUrl (listingBody t url e) =
     (if 3 \<le> length t \<and> isUrl ''https://example.org/apply'' \<and> isUrl url
      then Some \<lparr> in_type = ''job'', in_title = t, in_department = ''Health'', in_state = ''Kerala'',
            in_qualification = ''Nursing'', in_eligibility = None, in_ageLimit = None,
            in_vacancies = None, in_salary = None, in_fees = None, in_startDate = None,
            in_lastDate = None, in_selectionProcess = None,
            in_applyLink = ''https://example.org/apply'',
            in_notificationPDF = None, in_source_name = ''Board'', in_source_url = url \<rparr>
      else None)"
  by (cases e) (simp_all add: jobInputSchema_def listingBody_def)

section \<open>C1: slug normalisation\<close>

text \<open>
  Claim C1 says that \<open>slugify\<close> lowercases the title, strips every character outside
  \<open>[a-z0-9\s-]\<close>, turns runs of white space into single hyphens, collapses repeated
  hyphens and trims hyphens at both edges. The last part fails: \<open>trim()\<close> removes white
  space, not hyphens, and it runs before the white space is replaced. A title that
  begins and ends with a hyphen keeps both.
\<close>

theorem slugify_keeps_edge_hyphens: "slugify ''-Jobs 2024-'' = ''-jobs-2024-''"
  by code_simp

text \<open>
  C1, as amended. For every title, the slug is the lowercased title, stripped of every
  character outside \<open>[a-z0-9\s-]\<close> and trimmed of white space (not of hyphens) at both
  edges, in which every maximal run of white space and hyphens has become a single
  hyphen and every other character is kept. So: a word of letters \<open>a\<close>-\<open>z\<close> and
  digits is its own slug; where a run of white space and hyphens stands between two
  characters of \<open>a\<close>-\<open>z\<close>, \<open>0\<close>-\<open>9\<close>, the slug is the slug of what is before, one
  hyphen, and the slug of what is after; the slug consists of \<open>a\<close>-\<open>z\<close>, \<open>0\<close>-\<open>9\<close> and the
  hyphen only and has no two hyphens in a row; its letters and digits are those of the
  lowercased title, in the same order; its first and its last character are those of the
  lowercased, stripped and trimmed title, so a hyphen at an edge stays; the copy of the
  function in routes/admin.ts computes the same slug; and when the normalised result is
  empty, \<open>ensureUniqueSlug\<close> returns \<open>job-<timestamp>\<close>, which is not empty.
\<close>

theorem slugify_normalises:
  "slugify t = hyphenateRuns False (trim (filter slugClass (toLowerCase t)))
   \<and> (list_all (\<lambda>c. isLowerAZ c \<or> isDigit c) w \<longrightarrow> slugify w = w)
   \<and> ((isLowerAZ a \<or> isDigit a) \<and> (isLowerAZ b \<or> isDigit b)
        \<and> s \<noteq> [] \<and> list_all (\<lambda>c. isSpace c \<or> isHyphen c) s \<longrightarrow>
        slugify (u @ [a] @ s @ [b] @ v) = slugify (u @ [a]) @ ''-'' @ slugify ([b] @ v))
   \<and> list_all (\<lambda>c. isLowerAZ c \<or> isDigit c \<or> isHyphen c) (slugify t)
   \<and> \<not> (\<exists>u v. slugify t = u @ ''--'' @ v)
   \<and> filter (\<lambda>c. isLowerAZ c \<or> isDigit c) (slugify t)
       = filter (\<lambda>c. isLowerAZ c \<or> isDigit c) (toLowerCase t)
   \<and> take 1 (slugify t) = take 1 (trim (filter slugClass (toLowerCase t)))
   \<and> take 1 (rev (slugify t)) = take 1 (rev (trim (filter slugClass (toLowerCase t))))
   \<and> slugifyInput t = slugify t
   \<and> (slugify t = [] \<longrightarrow>
        ensureUniqueSlug store now t = Some (''job-'' @ decimal now)
        \<and> ensureUniqueSlug_admin store now t = Some (''job-'' @ decimal now)
        \<and> ''job-'' @ decimal now \<noteq> [])"
proof -
  have fb: "slugify t = [] \<longrightarrow>
        ensureUniqueSlug store now t = Some (''job-'' @ decimal now)
        \<and> ensureUniqueSlug_admin store now t = Some (''job-'' @ decimal now)
        \<and> ''job-'' @ decimal now \<noteq> []"
    by (simp add: ensureUniqueSlug_def ensureUniqueSlug_admin_eq)
  have wd: "list_all (\<lambda>c. isLowerAZ c \<or> isDigit c) w \<longrightarrow> slugify w = w"
    using slugify_word[of w] by (simp add: isSlugAlnum_def[abs_def])
  have jn: "(isLowerAZ a \<or> isDigit a) \<and> (isLowerAZ b \<or> isDigit b)
        \<and> s \<noteq> [] \<and> list_all (\<lambda>c. isSpace c \<or> isHyphen c) s \<longrightarrow>
        slugify (u @ [a] @ s @ [b] @ v) = slugify (u @ [a]) @ ''-'' @ slugify ([b] @ v)"
    using slugify_joins_words[of a b s u v]
    by (simp add: isSlugAlnum_def isSeparator_def[abs_def])
  show ?thesis
    using slugify_hyphenateRuns[of t] wd jn
      slugify_chars[of t] slugify_no_double_hyphen[of t] slugify_alnum[of t]
      slugify_edges(2)[of t] slugify_edges(3)[of t] slugifyInput_eq[of t] fb
    by blast
qed

text \<open>
  The title \<open>!!!\<close> normalises to the empty string and gets the placeholder slug; the
  word \<open>nurse\<close> is its own slug; in \<open>Staff  -  nurse\<close> the run between the words
  becomes one hyphen.
\<close>

theorem slugify_normalises_witness:
  "slugify ''!!!'' = []
   \<and> ensureUniqueSlug [] 1700 ''!!!'' = Some ''job-1700''
   \<and> ensureUniqueSlug_admin [] 1700 ''!!!'' = Some ''job-1700''
   \<and> slugify ''nurse'' = ''nurse''
   \<and> slugify ''Staff  -  nurse'' = ''staff-nurse''"
proof -
  note th = slugify_normalises[of "''!!!''" "''nurse''" "CHR ''f''" "CHR ''n''" "''  -  ''"
      "''Staf''" "''urse''" "[]" 1700]
  have e: "slugify ''!!!'' = []" by code_simp
  have d: "''job-'' @ decimal 1700 = ''job-1700''" by code_simp
  from th e
  have fb: "ensureUniqueSlug [] 1700 ''!!!'' = Some (''job-'' @ decimal 1700)
        \<and> ensureUniqueSlug_admin [] 1700 ''!!!'' = Some (''job-'' @ decimal 1700)"
    by blast
  have w: "list_all (\<lambda>c. isLowerAZ c \<or> isDigit c) ''nurse''" by code_simp
  from th w have wd: "slugify ''nurse'' = ''nurse''" by blast
  have h: "(isLowerAZ (CHR ''f'') \<or> isDigit (CHR ''f'')) \<and> (isLowerAZ (CHR ''n'') \<or> isDigit (CHR ''n''))
        \<and> ''  -  '' \<noteq> [] \<and> list_all (\<lambda>c. isSpace c \<or> isHyphen c) ''  -  ''" by code_simp
  from th h have jn: "slugify (''Staf'' @ [CHR ''f''] @ ''  -  '' @ [CHR ''n''] @ ''urse'')
      = slugify (''Staf'' @ [CHR ''f'']) @ ''-'' @ slugify ([CHR ''n''] @ ''urse'')" by blast
  have l: "slugify ''Staff'' = ''staff''" by code_simp
  from jn l wd have j: "slugify ''Staff  -  nurse'' = ''staff-nurse''" by simp
  with e d fb wd show ?thesis by simp
qed

section \<open>C2: slugs of sequential creations\<close>

text \<open>
  Claim C2 says that every sequence of creations whose titles normalise to the same
  non-empty base gets the slugs \<open>base\<close>, \<open>base-2\<close>, \<open>base-3\<close>, ... with no suffix
  skipped. It fails when the store already holds a slug of that family: the title
  \<open>abc 2\<close> normalises to \<open>abc-2\<close>, and two later creations with the title \<open>abc\<close>
  then get \<open>abc\<close> and \<open>abc-3\<close>.
\<close>

theorem skipped_suffix_counterexample:
  "jobs_post (\<lambda>u. True) (\<lambda>d. None) \<lparr>clock = 1, freshId = ''a''\<rparr>
       (listingBody ''abc 2'' ''https://example.org/1'' None) []
     = Some (Ok 200 (''a'', ''abc-2''), seededStore)
   \<and> map_option (assignedSlugs \<circ> fst)
       (createAll (\<lambda>u. True) (\<lambda>d. None)
          [(\<lparr>clock = 2, freshId = ''b''\<rparr>, listingBody ''abc'' ''https://example.org/2'' None),
           (\<lparr>clock = 3, freshId = ''c''\<rparr>, listingBody ''abc'' ''https://example.org/3'' None)]
          seededStore)
     = Some [''abc'', ''abc-3'']"
  by code_simp

text \<open>
  C2, as amended. Let the titles of a sequence of creation requests all normalise to the
  same non-empty base, let the requests be handled one after the other with no other
  write in between, and let the store at the start hold none of the slugs \<open>base\<close>,
  \<open>base-2\<close>, \<open>base-3\<close>, ... Then every request is answered, the slugs of the
  successful creations are exactly \<open>base\<close>, \<open>base-2\<close>, ..., \<open>base-n\<close> in creation
  order, no slug is used twice, and the store has gained exactly these slugs. (A request
  whose create fails, on a duplicate source URL for instance, gets no slug and leaves the
  store as it was.) And in any store, the probe for a title that normalises to the base
  returns the first slug of the family \<open>base\<close>, \<open>base-2\<close>, \<open>base-3\<close>, ... that the
  store does not hold, all earlier ones being held.
\<close>

theorem sequential_slugs:
  assumes "base \<noteq> []"
    and "\<forall>(c, body) \<in> set calls.
           \<exists>d. jobInputSchema isUrl body = Some d \<and> slugify (in_title d) = base"
    and "\<forall>k. 1 \<le> k \<longrightarrow> \<not> Job_exists_slug store (nthSlug base k)"
  shows "(\<exists>rs store'.
            createAll isUrl parseDate calls store = Some (rs, store')
            \<and> assignedSlugs rs = map (nthSlug base) [1 ..< Suc (length (assignedSlugs rs))]
            \<and> distinct (assignedSlugs rs)
            \<and> map slug store' = map slug store @ assignedSlugs rs)
       \<and> (slugify t = base \<longrightarrow>
            (\<exists>m. ensureUniqueSlug anyStore now t = Some (nthSlug base (Suc m))
                 \<and> (\<forall>k. 1 \<le> k \<and> k \<le> m \<longrightarrow> Job_exists_slug anyStore (nthSlug base k))
                 \<and> \<not> Job_exists_slug anyStore (nthSlug base (Suc m))))"
proof -
  have "familyUpTo base 0 store" using assms(3) by (simp add: familyUpTo_def)
  from createAll_family[OF assms(1) assms(2) this, of parseDate]
  obtain rs store' where r: "createAll isUrl parseDate calls store = Some (rs, store')"
    "assignedSlugs rs = map (nthSlug base) [1 ..< Suc (length (assignedSlugs rs))]"
    "map slug store' = map slug store @ assignedSlugs rs" by auto
  have "inj_on (nthSlug base) (set [1 ..< Suc (length (assignedSlugs rs))])"
  proof (rule inj_onI)
    fix x y
    assume "x \<in> set [1 ..< Suc (length (assignedSlugs rs))]"
      "y \<in> set [1 ..< Suc (length (assignedSlugs rs))]" "nthSlug base x = nthSlug base y"
    then have "1 \<le> x" "1 \<le> y" "nthSlug base x = nthSlug base y" by auto
    then show "x = y" by (rule nthSlug_inj)
  qed
  then have "distinct (map (nthSlug base) [1 ..< Suc (length (assignedSlugs rs))])"
    by (simp add: distinct_map)
  then have "distinct (assignedSlugs rs)" using r(2) by simp
  with r have first: "\<exists>rs store'.
            createAll isUrl parseDate calls store = Some (rs, store')
            \<and> assignedSlugs rs = map (nthSlug base) [1 ..< Suc (length (assignedSlugs rs))]
            \<and> distinct (assignedSlugs rs)
            \<and> map slug store' = map slug store @ assignedSlugs rs" by blast
  have second: "slugify t = base \<longrightarrow>
            (\<exists>m. ensureUniqueSlug anyStore now t = Some (nthSlug base (Suc m))
                 \<and> (\<forall>k. 1 \<le> k \<and> k \<le> m \<longrightarrow> Job_exists_slug anyStore (nthSlug base k))
                 \<and> \<not> Job_exists_slug anyStore (nthSlug base (Suc m)))"
  proof
    assume t: "slugify t = base"
    from probeLoop_returns[of anyStore base] obtain m where
      m: "probeLoop anyStore base base 2 = Some (nthSlug base (Suc m))"
         "\<forall>k. 1 \<le> k \<and> k \<le> m \<longrightarrow> Job_exists_slug anyStore (nthSlug base k)"
         "\<not> Job_exists_slug anyStore (nthSlug base (Suc m))" by blast
    have "ensureUniqueSlug anyStore now t = Some (nthSlug base (Suc m))"
      using t assms(1) m(1) by (simp add: ensureUniqueSlug_def Let_def)
    with m(2,3) show "\<exists>m. ensureUniqueSlug anyStore now t = Some (nthSlug base (Suc m))
                 \<and> (\<forall>k. 1 \<le> k \<and> k \<le> m \<longrightarrow> Job_exists_slug anyStore (nthSlug base k))
                 \<and> \<not> Job_exists_slug anyStore (nthSlug base (Suc m))" by blast
  qed
  from first second show ?thesis by blast
qed

text \<open>
  Two creations with the title \<open>Staff Nurse Recruitment\<close> in an empty store; and a
  probe for the title \<open>abc 2\<close> in a store that holds \<open>abc-2\<close>.
\<close>

theorem sequential_slugs_witness:
  "(\<exists>rs store'.
     createAll (\<lambda>u. True) (\<lambda>d. None)
       [(\<lparr>clock = 1, freshId = ''a''\<rparr>,
         listingBody ''Staff Nurse Recruitment'' ''https://example.org/1'' None),
        (\<lparr>clock = 2, freshId = ''b''\<rparr>,
         listingBody ''Staff Nurse Recruitment'' ''https://example.org/2'' None)]
       [] = Some (rs, store')
     \<and> assignedSlugs rs = [''staff-nurse-recruitment'', ''staff-nurse-recruitment-2'']
     \<and> map slug store' = [''staff-nurse-recruitment'', ''staff-nurse-recruitment-2''])
   \<and> ensureUniqueSlug seededStore 5 ''abc 2'' = Some ''abc-2-2''"
proof -
  let ?calls = "[(\<lparr>clock = 1, freshId = ''a''\<rparr>,
         listingBody ''Staff Nurse Recruitment'' ''https://example.org/1'' None),
        (\<lparr>clock = 2, freshId = ''b''\<rparr>,
         listingBody ''Staff Nurse Recruitment'' ''https://example.org/2'' None)]"
  have s: "slugify ''Staff Nurse Recruitment'' = ''staff-nurse-recruitment''" by code_simp
  have a: "''staff-nurse-recruitment'' \<noteq> []" by simp
  have b: "\<forall>(c, body) \<in> set ?calls.
       \<exists>d. jobInputSchema (\<lambda>u. True) body = Some d
           \<and> slugify (in_title d) = ''staff-nurse-recruitment''"
    by (simp add: jobInputSchema_listingBody s)
  have c: "\<forall>k. 1 \<le> k \<longrightarrow> \<not> Job_exists_slug [] (nthSlug ''staff-nurse-recruitment'' k)"
    by (simp add: Job_exists_slug_def)
  note th = sequential_slugs[where parseDate = "\<lambda>d. None", OF a b c]
  from th obtain rs store' where r:
    "createAll (\<lambda>u. True) (\<lambda>d. None) ?calls [] = Some (rs, store')"
    "assignedSlugs rs = map (nthSlug ''staff-nurse-recruitment'') [1 ..< Suc (length (assignedSlugs rs))]"
    "map slug store' = map slug ([] :: job list) @ assignedSlugs rs"
    by blast
  have v: "map_option (assignedSlugs \<circ> fst) (createAll (\<lambda>u. True) (\<lambda>d. None) ?calls [])
        = Some [''staff-nurse-recruitment'', ''staff-nurse-recruitment-2'']"
    by code_simp
  from r(1) v have as: "assignedSlugs rs = [''staff-nurse-recruitment'', ''staff-nurse-recruitment-2'']"
    by simp
  from r(3) as have st: "map slug store' = [''staff-nurse-recruitment'', ''staff-nurse-recruitment-2'']"
    by simp
  have s2: "slugify ''abc 2'' = ''abc-2''" by code_simp
  have a2: "''abc-2'' \<noteq> []" by simp
  have b2: "\<forall>(c, body) \<in> set ([] :: (call \<times> json) list).
       \<exists>d. jobInputSchema (\<lambda>u. True) body = Some d \<and> slugify (in_title d) = ''abc-2''"
    by simp
  have c2: "\<forall>k. 1 \<le> k \<longrightarrow> \<not> Job_exists_slug [] (nthSlug ''abc-2'' k)"
    by (simp add: Job_exists_slug_def)
  have e: "ensureUniqueSlug seededStore 5 ''abc 2'' = Some ''abc-2-2''" by code_simp
  from sequential_slugs[where parseDate = "\<lambda>d. None" and t = "''abc 2''" and anyStore = seededStore
      and now = 5, OF a2 b2 c2] s2
  have probe: "\<exists>m. ensureUniqueSlug seededStore 5 ''abc 2'' = Some (nthSlug ''abc-2'' (Suc m))"
    by blast
  have first: "\<exists>rs store'.
     createAll (\<lambda>u. True) (\<lambda>d. None) ?calls [] = Some (rs, store')
     \<and> assignedSlugs rs = [''staff-nurse-recruitment'', ''staff-nurse-recruitment-2'']
     \<and> map slug store' = [''staff-nurse-recruitment'', ''staff-nurse-recruitment-2'']"
    by (rule exI[of _ rs], rule exI[of _ store'], intro conjI, rule r(1), rule as, rule st)
  from probe e have second: "ensureUniqueSlug seededStore 5 ''abc 2'' = Some ''abc-2-2''"
    by simp
  from first second show ?thesis by (rule conjI)
qed

section \<open>Rounding to a double\<close>

lemma exponentOf_bounds:
  assumes "0 < x"
  shows "2 powi (exponentOf x) \<le> x \<and> x < 2 powi (exponentOf x + 1)"
proof (cases "1 \<le> x")
  case True
  let ?f = "\<lfloor>x\<rfloor>"
  have f: "0 < ?f" using True by simp
  from bitlen_bounds[OF f] have b: "2 ^ nat (bitlen ?f - 1) \<le> ?f" "?f < 2 ^ nat (bitlen ?f)" by auto
  have bl: "1 \<le> bitlen ?f" using f bitlen_eq_zero_iff[of ?f] bitlen_nonneg[of ?f] by linarith
  have e: "exponentOf x = bitlen ?f - 1" using True by (simp add: exponentOf_def)
  have "(2::rat) powi (bitlen ?f - 1) = 2 ^ nat (bitlen ?f - 1)"
    using bl by (simp add: power_int_nonneg_exp)
  also have "\<dots> = of_int (2 ^ nat (bitlen ?f - 1))" by simp
  also have "\<dots> \<le> of_int ?f" using b(1) by (simp only: of_int_le_iff)
  also have "\<dots> \<le> x" by simp
  finally have lo: "2 powi (exponentOf x) \<le> x" unfolding e .
  have "?f + 1 \<le> 2 ^ nat (bitlen ?f)" using b(2) by simp
  then have "(of_int (?f + 1) :: rat) \<le> of_int (2 ^ nat (bitlen ?f))" by (simp only: of_int_le_iff)
  moreover have "x < of_int (?f + 1)" by linarith
  ultimately have "x < of_int (2 ^ nat (bitlen ?f))" by linarith
  also have "\<dots> = 2 ^ nat (bitlen ?f)" by simp
  also have "\<dots> = (2::rat) powi (bitlen ?f)" using bl by (simp add: power_int_nonneg_exp)
  finally have "x < 2 powi (exponentOf x + 1)" unfolding e by simp
  with lo show ?thesis by simp
next
  case False
  let ?z = "1 / x"
  let ?c = "\<lceil>?z\<rceil>"
  have z: "1 < ?z" using False assms by simp
  have c: "0 < ?c - 1" using z by linarith
  let ?j = "bitlen (?c - 1)"
  from bitlen_bounds[OF c] have b: "2 ^ nat (?j - 1) \<le> ?c - 1" "?c - 1 < 2 ^ nat ?j" by auto
  have jl: "1 \<le> ?j" using c bitlen_eq_zero_iff[of "?c - 1"] bitlen_nonneg[of "?c - 1"] by linarith
  have e: "exponentOf x = - ?j" using False by (simp add: exponentOf_def)
  have "?c \<le> 2 ^ nat ?j" using b(2) by simp
  then have cle: "(of_int ?c :: rat) \<le> of_int (2 ^ nat ?j)" by (simp only: of_int_le_iff)
  have "?z \<le> of_int ?c" by (rule le_of_int_ceiling)
  also note cle
  also have "(of_int (2 ^ nat ?j) :: rat) = 2 ^ nat ?j" by simp
  finally have zle: "?z \<le> 2 ^ nat ?j" .
  have p: "(0::rat) < 2 ^ nat ?j" by simp
  have "1 / 2 ^ nat ?j \<le> x"
    using zle assms p by (simp add: field_simps)
  moreover have "(2::rat) powi (- ?j) = 1 / 2 ^ nat ?j"
    using jl by (simp add: power_int_minus_divide power_int_nonneg_exp)
  ultimately have lo: "2 powi (exponentOf x) \<le> x" unfolding e by simp
  have "(2::rat) ^ nat (?j - 1) = of_int (2 ^ nat (?j - 1))" by simp
  also have "\<dots> \<le> of_int (?c - 1)" using b(1) by (simp only: of_int_le_iff)
  also have "\<dots> < ?z" by linarith
  finally have zgt: "2 ^ nat (?j - 1) < ?z" .
  have p': "(0::rat) < 2 ^ nat (?j - 1)" by simp
  have "x < 1 / 2 ^ nat (?j - 1)"
    using zgt assms p' by (simp add: field_simps)
  moreover have "(2::rat) powi (- ?j + 1) = 1 / 2 ^ nat (?j - 1)"
  proof -
    have "- ?j + 1 = - (?j - 1)" by simp
    then have "(2::rat) powi (- ?j + 1) = 2 powi (- (?j - 1))" by (rule arg_cong)
    also have "\<dots> = 1 / 2 powi (?j - 1)" by (rule power_int_minus_divide)
    also have "\<dots> = 1 / 2 ^ nat (?j - 1)" using jl by (simp add: power_int_nonneg_exp)
    finally show ?thesis .
  qed
  ultimately have "x < 2 powi (exponentOf x + 1)" unfolding e by simp
  with lo show ?thesis by simp
qed

lemma roundHalfEven_of_int: "roundHalfEven (of_int n) = n"
  by (simp add: roundHalfEven_def)

lemma roundHalfEven_near: "\<bar>of_int (roundHalfEven y) - y\<bar> \<le> 1 / 2"
proof -
  have "of_int \<lfloor>y\<rfloor> \<le> y" "y < of_int \<lfloor>y\<rfloor> + 1" by linarith+
  then show ?thesis by (auto simp: roundHalfEven_def Let_def)
qed

lemma exponentOf_ge: "0 < x \<Longrightarrow> 2 powi a \<le> x \<Longrightarrow> a \<le> exponentOf x"
proof (rule ccontr)
  assume x: "0 < x" and a: "2 powi a \<le> x" and n: "\<not> a \<le> exponentOf x"
  then have "exponentOf x + 1 \<le> a" by simp
  then have "(2::rat) powi (exponentOf x + 1) \<le> 2 powi a" by (rule power_int_increasing) simp
  with exponentOf_bounds[OF x] a show False by linarith
qed

lemma exponentOf_less: "0 < x \<Longrightarrow> x < 2 powi b \<Longrightarrow> exponentOf x < b"
proof (rule ccontr)
  assume x: "0 < x" and b: "x < 2 powi b" and n: "\<not> exponentOf x < b"
  then have "b \<le> exponentOf x" by simp
  then have "(2::rat) powi b \<le> 2 powi (exponentOf x)" by (rule power_int_increasing) simp
  with exponentOf_bounds[OF x] b show False by linarith
qed

lemma roundDouble_int:
  assumes "0 \<le> n" "n < 2 ^ 53"
  shows "roundDouble (of_int n) = Finite (of_int n)"
proof (cases "n = 0")
  case True
  then show ?thesis by (simp add: roundDouble_def)
next
  case False
  let ?x = "of_int n :: rat"
  have x: "0 < ?x" "1 \<le> ?x" using assms False by simp_all
  let ?e = "exponentOf ?x"
  have "(2::rat) powi 0 \<le> ?x" using x by simp
  then have e0: "0 \<le> ?e" using exponentOf_ge[OF x(1)] by blast
  have "?x < of_int (2 ^ 53)" using assms(2) by (simp only: of_int_less_iff)
  then have "?x < 2 powi 53" by simp
  then have e53: "?e < 53" using exponentOf_less[OF x(1)] by blast
  have q: "quantum ?x = 2 powi (?e - 52)" using e0 x by (simp add: quantum_def max_def)
  have "(2::rat) powi (?e - 52) = 1 / 2 powi (52 - ?e)"
    using power_int_minus_divide[of "2::rat" "52 - ?e"] by simp
  also have "\<dots> = 1 / 2 ^ nat (52 - ?e)" using e53 by (simp add: power_int_nonneg_exp)
  finally have q': "quantum ?x = 1 / 2 ^ nat (52 - ?e)" using q by simp
  have m: "\<bar>?x\<bar> / quantum ?x = of_int (n * 2 ^ nat (52 - ?e))"
    using x by (simp add: q')
  have y: "of_int (roundHalfEven (\<bar>?x\<bar> / quantum ?x)) * quantum ?x = ?x"
    unfolding m roundHalfEven_of_int by (simp add: q')
  have "?x < 2 powi 1024"
  proof -
    have "?x < 2 powi 53" by fact
    also have "(2::rat) powi 53 \<le> 2 powi 1024" by (rule power_int_increasing) simp_all
    finally show ?thesis .
  qed
  then have nle: "\<not> 2 powi 1024 \<le> ?x" by (simp only: not_le)
  have nz: "?x \<noteq> 0" using x by simp
  show ?thesis unfolding roundDouble_def Let_def y using nz nle x(1) by (simp only: if_False if_True)
qed

lemma roundDouble_near:
  assumes "2 powi (- 6) \<le> x" "x < 2 powi 47"
  shows "\<exists>y. roundDouble x = Finite y \<and> \<bar>y - x\<bar> \<le> 1 / 128"
proof -
  have x: "0 < x"
  proof -
    have "(0::rat) < 2 powi (- 6)" by simp
    with assms(1) show ?thesis by linarith
  qed
  let ?e = "exponentOf x"
  have e1: "- 6 \<le> ?e" using exponentOf_ge[OF x assms(1)] .
  have e2: "?e < 47" using exponentOf_less[OF x assms(2)] .
  have q: "quantum x = 2 powi (?e - 52)" using e1 x by (simp add: quantum_def max_def)
  have qpos: "0 < quantum x" unfolding q by simp
  have "(2::rat) powi (?e - 52) \<le> 2 powi (- 6)"
    by (rule power_int_increasing) (use e2 in simp_all)
  then have qle: "quantum x \<le> 1 / 64" unfolding q by simp
  let ?m = "\<bar>x\<bar> / quantum x"
  let ?y = "of_int (roundHalfEven ?m) * quantum x"
  have "\<bar>of_int (roundHalfEven ?m) - ?m\<bar> \<le> 1 / 2" by (rule roundHalfEven_near)
  then have "\<bar>of_int (roundHalfEven ?m) - ?m\<bar> * quantum x \<le> 1 / 2 * quantum x"
    using qpos by (simp only: mult_le_cancel_right_pos)
  moreover have "\<bar>of_int (roundHalfEven ?m) - ?m\<bar> * quantum x = \<bar>?y - x\<bar>"
  proof -
    have "?y - x = (of_int (roundHalfEven ?m) - ?m) * quantum x"
      using qpos x by (simp add: field_simps)
    then show ?thesis using qpos by (simp add: abs_mult)
  qed
  ultimately have near: "\<bar>?y - x\<bar> \<le> 1 / 128" using qle by linarith
  have "(2::rat) powi 47 + 1 \<le> 2 powi 1024"
  proof -
    have "(2::rat) powi 47 + 1 \<le> 2 powi 48" by simp
    also have "\<dots> \<le> 2 powi 1024" by (rule power_int_increasing) simp_all
    finally show ?thesis .
  qed
  with near assms(2) have "?y < 2 powi 1024" by linarith
  then have nle: "\<not> 2 powi 1024 \<le> ?y" by (simp only: not_le)
  have nz: "x \<noteq> 0" using x by simp
  have "roundDouble x = Finite ?y"
    unfolding roundDouble_def Let_def using nz nle x by (simp only: if_False if_True)
  with near show ?thesis by blast
qed

lemma ceiling_of_rounded_quotient:
  fixes n L :: int
  assumes t: "0 < n" "n < 2 ^ 47" and L: "1 \<le> L" "L \<le> 50"
  shows "\<exists>y. roundDouble (of_int n / of_int L) = Finite y
            \<and> \<lceil>y\<rceil> = \<lceil>(of_int n / of_int L :: rat)\<rceil>"
proof -
  let ?q = "of_int n / of_int L :: rat"
  have Lp: "(0::rat) < of_int L" using L by simp
  have lo: "2 powi (- 6) \<le> ?q"
  proof -
    have "(1::rat) / 50 \<le> 1 / of_int L" using L by (simp add: field_simps)
    also have "\<dots> \<le> ?q" using t(1) Lp by (simp add: field_simps)
    finally have "(1::rat) / 50 \<le> ?q" .
    moreover have "(2::rat) powi (- 6) \<le> 1 / 50" by (simp add: power_int_minus_divide)
    ultimately show ?thesis by linarith
  qed
  have hi: "?q < 2 powi 47"
  proof -
    have "?q \<le> of_int n" using L t(1) by (simp add: field_simps mult_le_cancel_left)
    also have "(of_int n :: rat) < of_int (2 ^ 47)" using t(2) by (simp only: of_int_less_iff)
    finally show ?thesis by simp
  qed
  from roundDouble_near[OF lo hi] obtain y where
    y: "roundDouble ?q = Finite y" "\<bar>y - ?q\<bar> \<le> 1 / 128" by blast
  let ?k = "\<lceil>?q\<rceil>"
  show ?thesis
  proof (cases "?q = of_int ?k")
    case True
    have "(0::rat) < 2 powi (- 6)" by simp
    with lo have "0 < ?q" by linarith
    then have "0 < ?k" by (simp only: zero_less_ceiling)
    then have k0: "0 \<le> ?k" by simp
    have "?q < of_int (2 ^ 47)" using hi by simp
    then have "(of_int ?k :: rat) < of_int (2 ^ 47)" using True by simp
    then have "?k < 2 ^ 47" by (simp only: of_int_less_iff)
    then have k53: "?k < 2 ^ 53" by simp
    from roundDouble_int[OF k0 k53] have "roundDouble ?q = Finite (of_int ?k)"
      using True by simp
    then show ?thesis by simp
  next
    case False
    have up: "?q < of_int ?k" using False le_of_int_ceiling[of ?q] by linarith
    have dn: "of_int (?k - 1) < ?q" by linarith
    have "of_int n < of_int ?k * (of_int L :: rat)" using up Lp by (simp add: field_simps)
    then have "(of_int n :: rat) < of_int (?k * L)" by simp
    then have "n < ?k * L" by (simp only: of_int_less_iff)
    then have "n + 1 \<le> ?k * L" by simp
    then have "(of_int (n + 1) :: rat) \<le> of_int (?k * L)" by (simp only: of_int_le_iff)
    then have "(of_int n + 1) / of_int L \<le> (of_int ?k * of_int L) / (of_int L :: rat)"
      using Lp by (intro divide_right_mono) simp_all
    then have "?q + 1 / of_int L \<le> of_int ?k" using Lp by (simp add: add_divide_distrib)
    moreover have l50: "(1::rat) / 50 \<le> 1 / of_int L" using L by (simp add: field_simps)
    ultimately have gap_up: "?q + 1 / 50 \<le> of_int ?k" by linarith
    have "of_int (?k - 1) * (of_int L :: rat) < of_int n" using dn Lp by (simp add: field_simps)
    then have "(of_int ((?k - 1) * L) :: rat) < of_int n" by simp
    then have "(?k - 1) * L < n" by (simp only: of_int_less_iff)
    then have "(?k - 1) * L + 1 \<le> n" by simp
    then have "(of_int ((?k - 1) * L + 1) :: rat) \<le> of_int n" by (simp only: of_int_le_iff)
    then have "(of_int (?k - 1) * of_int L + 1) / (of_int L :: rat) \<le> of_int n / of_int L"
      using Lp by (intro divide_right_mono) simp_all
    then have "of_int (?k - 1) + 1 / of_int L \<le> ?q" using Lp by (simp add: add_divide_distrib)
    with l50 have gap_dn: "of_int (?k - 1) + 1 / 50 \<le> ?q" by linarith
    from y(2) have "y \<le> ?q + 1 / 128" "?q - 1 / 128 \<le> y" by linarith+
    with gap_up gap_dn have "of_int (?k - 1) < y" "y \<le> of_int ?k" by linarith+
    then have "\<lceil>y\<rceil> = ?k" by (simp add: ceiling_eq_iff)
    with y(1) show ?thesis by simp
  qed
qed

lemma skipOf_integral:
  assumes "pageSafe page = of_int a" "limitSafe limit = of_int b" "(a - 1) * b < 2 ^ 53"
  shows "skipOf page limit = Finite (of_int ((a - 1) * b))"
proof -
  have "(1::rat) \<le> of_int a" using assms(1)[symmetric] by (cases page) (simp_all add: pageSafe_def)
  then have a: "1 \<le> a" by simp
  have "(1::rat) \<le> of_int b" using assms(2)[symmetric] by (simp add: limitSafe_def)
  then have b: "1 \<le> b" by simp
  have a0: "0 \<le> a - 1" using a by simp
  have "(a - 1) * 1 \<le> (a - 1) * b" using a0 b by (intro mult_left_mono) simp_all
  then have a53: "a - 1 < 2 ^ 53" using assms(3) by simp
  have p0: "0 \<le> (a - 1) * b" using a0 b by simp
  have d: "roundDouble (pageSafe page - 1) = Finite (of_int (a - 1))"
    using roundDouble_int[OF a0 a53] by (simp add: assms(1))
  have "roundDouble (of_int (a - 1) * limitSafe limit) = Finite (of_int ((a - 1) * b))"
    using roundDouble_int[OF p0 assms(3)] by (simp add: assms(2))
  then show ?thesis by (simp add: skipOf_def d)
qed

lemma totalPagesOf_integral:
  assumes "1 \<le> b" "b \<le> 50" "n < 2 ^ 47"
  shows "totalPagesOf n (of_int b) = Finite (of_int (max \<lceil>(of_nat n / of_int b :: rat)\<rceil> 1))"
proof (cases "n = 0")
  case True
  then show ?thesis by (simp add: totalPagesOf_def roundDouble_def)
next
  case False
  then have t: "0 < int n" by simp
  have "int n < int (2 ^ 47)" using assms(3) by (simp only: of_nat_less_iff)
  then have t47: "int n < 2 ^ 47" by simp
  from ceiling_of_rounded_quotient[OF t t47 assms(1,2)] obtain y where
    y: "roundDouble (of_int (int n) / of_int b) = Finite y"
       "\<lceil>y\<rceil> = \<lceil>(of_int (int n) / of_int b :: rat)\<rceil>" by blast
  then show ?thesis by (simp add: totalPagesOf_def)
qed

section \<open>The search pattern and the listing query\<close>

lemma special_not_alnum: "regexSpecial c \<Longrightarrow> \<not> isAsciiAlnum c"
  by (auto simp: regexSpecial_def isAsciiAlnum_def)

lemma syntax_is_escaped: "patternSyntaxChar c \<Longrightarrow> regexSpecial c"
  by (auto simp: patternSyntaxChar_def regexSpecial_def)

lemma escapeRegex_Nil: "escapeRegex [] = []"
  by (simp add: escapeRegex_def)

lemma escapeRegex_Cons:
  "escapeRegex (c # cs) =
     (if regexSpecial c then CHR 0x5C # c # escapeRegex cs else c # escapeRegex cs)"
  by (simp add: escapeRegex_def)

lemma literalPattern_escapeRegex: "literalPattern (escapeRegex s) = Some s"
proof (induction s)
  case Nil
  show ?case by (simp add: escapeRegex_Nil)
next
  case (Cons c cs)
  show ?case
  proof (cases "regexSpecial c")
    case True
    with Cons show ?thesis by (simp add: escapeRegex_Cons special_not_alnum)
  next
    case False
    then have nb: "c \<noteq> CHR 0x5C" by (auto simp: regexSpecial_def)
    have ns: "\<not> patternSyntaxChar c" using False syntax_is_escaped by blast
    show ?thesis
    proof (cases "escapeRegex cs")
      case Nil
      with Cons have "cs = []" by simp
      with False ns Nil show ?thesis by (simp add: escapeRegex_Cons)
    next
      case (Cons e es)
      with False ns nb Cons.IH show ?thesis by (simp add: escapeRegex_Cons)
    qed
  qed
qed

lemma Job_find_buildFilter:
  "Job_find (buildFilter qu) store =
     Some (filter (matches (buildFilter qu) (nonEmpty (trimmedString (q_q qu)))) store)"
  by (cases "nonEmpty (trimmedString (q_q qu))")
     (simp_all add: Job_find_def buildFilter_def literalPattern_escapeRegex)

lemma limitSafe_bounds: "1 \<le> limitSafe l \<and> limitSafe l \<le> 50"
  by (simp add: limitSafe_def)

lemma pageSafe_ge: "1 \<le> pageSafe p"
  by (cases p) (simp_all add: pageSafe_def)

lemma length_skipLimit: "0 \<le> l \<Longrightarrow> of_nat (length (skipLimit s l js)) \<le> l"
proof -
  assume l: "0 \<le> l"
  have "length (skipLimit s l js) \<le> nat \<lfloor>l\<rfloor>" by (cases s) (simp_all add: skipLimit_def)
  then have "(of_nat (length (skipLimit s l js)) :: rat) \<le> of_nat (nat \<lfloor>l\<rfloor>)"
    by (simp only: of_nat_le_iff)
  also have "\<dots> = of_int \<lfloor>l\<rfloor>" using l by simp
  also have "\<dots> \<le> l" by (rule of_int_floor_le)
  finally show ?thesis .
qed

lemma newestFirst_sorted:
  "sorted_wrt (\<lambda>a b. createdAt b \<le> createdAt a) (newestFirst js)"
proof -
  have "sorted (map (\<lambda>j. - int (createdAt j)) (newestFirst js))"
    by (simp add: newestFirst_def)
  then show ?thesis by (simp add: sorted_map)
qed

lemma skipLimit_sorted: "sorted_wrt R js \<Longrightarrow> sorted_wrt R (skipLimit s l js)"
  by (cases s) (simp_all add: skipLimit_def sorted_wrt_take sorted_wrt_drop)

lemma set_skipLimit: "set (skipLimit s l js) \<subseteq> set js"
  by (cases s) (auto simp: skipLimit_def dest: in_set_takeD in_set_dropD)

lemma skipLimit_integral:
  "skipLimit (Finite (of_int k)) (of_int b) js = take (nat b) (drop (nat k) js)"
  by (simp add: skipLimit_def)

lemma set_newestFirst: "set (newestFirst js) = set js"
  by (simp add: newestFirst_def)

lemma jobs_get_eq:
  "jobs_get toNumber qu store =
     Some \<lparr> r_items = skipLimit (skipOf (pageOf toNumber qu) (limitOf toNumber qu))
                        (limitSafe (limitOf toNumber qu))
                        (newestFirst (filter (matches (buildFilter qu)
                                        (nonEmpty (trimmedString (q_q qu)))) store)),
            r_total = length (filter (matches (buildFilter qu)
                                        (nonEmpty (trimmedString (q_q qu)))) store),
            r_page = pageSafe (pageOf toNumber qu),
            r_limit = limitSafe (limitOf toNumber qu),
            r_totalPages = totalPagesOf (length (filter (matches (buildFilter qu)
                                        (nonEmpty (trimmedString (q_q qu)))) store))
                             (limitSafe (limitOf toNumber qu)) \<rparr>"
  by (simp add: jobs_get_def Let_def Job_find_buildFilter)

lemma includeExpired_cases:
  "includeExpired qu =
     (case q_includeExpired qu of None \<Rightarrow> False | Some v \<Rightarrow> jsString v = ''1'')"
proof (cases "q_includeExpired qu")
  case None
  then show ?thesis by (simp add: includeExpired_def stringOr_def)
next
  case (Some v)
  then show ?thesis by (cases v) (auto simp: includeExpired_def stringOr_def)
qed

lemma matches_isExpired_None:
  "f_isExpired f = None \<Longrightarrow> matches f lit (j \<lparr> isExpired := b \<rparr>) = matches f lit j"
  by (simp add: matches_def split: option.splits)

lemma matches_not_expired:
  "f_isExpired f = Some False \<Longrightarrow> matches f lit j \<Longrightarrow> \<not> isExpired j"
  by (simp add: matches_def)

lemma matches_Some:
  "matches f (Some t) j =
     (matches f None j
      \<and> (containsCI t (title j) \<or> containsCI t (department j)
          \<or> containsCI t (state j) \<or> containsCI t (qualification j)))"
  by (simp add: matches_def)

lemma loginSchema_credentials:
  "loginSchema isEmail (credentials e p)
     = (if isEmail e \<and> p \<noteq> [] then Some \<lparr> log_email = e, log_password = p \<rparr> else None)"
  by (cases p) (simp_all add: loginSchema_def credentials_def)

lemma registerSchema_registration:
  "registerSchema isEmail (registration n e p)
     = (if 2 \<le> length n \<and> isEmail e \<and> 8 \<le> length p
        then Some \<lparr> reg_name = n, reg_email = e, reg_password = p \<rparr> else None)"
  by (simp add: registerSchema_def registration_def)

lemma register_failure_store:
  "register isEmail hashPassword newId others body users = (Fail code msg, users')
     \<Longrightarrow> users' = users \<or> users' = others users"
  by (auto simp: register_def split: option.splits if_splits sum.splits store_error.splits)

lemma register_success:
  assumes "registerSchema isEmail body = Some d"
    and "register isEmail hashPassword newId others body users = (Ok code x, users')"
  shows "code = 201 \<and> (\<exists>usr. users' = others users @ [usr]
            \<and> u_email usr = toLowerCase (reg_email d) \<and> u_role usr = ''user''
            \<and> u_name usr = trim (reg_name d))"
  using assms
  by (auto simp: register_def User_create_def Let_def
           split: option.splits if_splits sum.splits store_error.splits)

section \<open>C3: page and limit\<close>

text \<open>
  Claim C3. The effective page is \<open>max(page, 1)\<close> for a finite page and 1 for
  \<open>NaN\<close>, an infinity or a missing (or empty) parameter, so it is at least 1; the
  effective limit is the limit clamped into \<open>[1, 50]\<close>, with 20 taken for \<open>NaN\<close>,
  an infinity or a missing parameter, so a limit of 1000 gives 50 and a limit of 0
  gives 1; a parameter that is present and not empty is converted from its string form.
  The skip offset is \<open>(effectivePage - 1) * effectiveLimit\<close> as the language computes
  it, in doubles: the rounded product of the rounded difference. When the effective page
  and the effective limit are integers whose product stays below \<open>2^53\<close>, no rounding
  happens: the skip offset is the integer \<open>(effectivePage - 1) * effectiveLimit\<close>, and
  the items of the response are the matching documents, newest first, without the first
  \<open>(effectivePage - 1) * effectiveLimit\<close> and up to \<open>effectiveLimit\<close> of them. The
  handler answers every request with this page and this limit.
\<close>

theorem paging_is_clamped:
  "pageSafe (Finite p) = max p 1
   \<and> pageSafe NaN = 1 \<and> pageSafe PosInfinity = 1 \<and> pageSafe NegInfinity = 1
   \<and> (\<not> truthy (q_page qu) \<longrightarrow> pageSafe (pageOf toNumber qu) = 1)
   \<and> (q_page qu = Some v \<and> truthy (Some v) \<longrightarrow> pageOf toNumber qu = toNumber (jsString v))
   \<and> limitSafe (Finite l) = min (max l 1) 50
   \<and> limitSafe NaN = 20 \<and> limitSafe PosInfinity = 20 \<and> limitSafe NegInfinity = 20
   \<and> (\<not> truthy (q_limit qu) \<longrightarrow> limitSafe (limitOf toNumber qu) = 20)
   \<and> (q_limit qu = Some w \<and> truthy (Some w) \<longrightarrow> limitOf toNumber qu = toNumber (jsString w))
   \<and> limitSafe (Finite 1000) = 50 \<and> limitSafe (Finite 0) = 1
   \<and> 1 \<le> pageSafe (pageOf toNumber qu)
   \<and> 1 \<le> limitSafe (limitOf toNumber qu) \<and> limitSafe (limitOf toNumber qu) \<le> 50
   \<and> skipOf (pageOf toNumber qu) (limitOf toNumber qu)
       = (case roundDouble (pageSafe (pageOf toNumber qu) - 1) of
            Finite d \<Rightarrow> roundDouble (d * limitSafe (limitOf toNumber qu))
          | x \<Rightarrow> x)
   \<and> (\<exists>r found. jobs_get toNumber qu store = Some r
         \<and> Job_find (buildFilter qu) store = Some found
         \<and> r_page r = pageSafe (pageOf toNumber qu)
         \<and> r_limit r = limitSafe (limitOf toNumber qu)
         \<and> r_items r = skipLimit (skipOf (pageOf toNumber qu) (limitOf toNumber qu))
                          (r_limit r) (newestFirst found)
         \<and> (pageSafe (pageOf toNumber qu) = of_int a \<and> limitSafe (limitOf toNumber qu) = of_int b
              \<and> (a - 1) * b < 2 ^ 53 \<longrightarrow>
              skipOf (pageOf toNumber qu) (limitOf toNumber qu) = Finite (of_int ((a - 1) * b))
              \<and> r_items r = take (nat b) (drop (nat ((a - 1) * b)) (newestFirst found))))"
proof -
  have a: "\<not> truthy (q_page qu) \<longrightarrow> pageSafe (pageOf toNumber qu) = 1"
    by (cases "q_page qu") (auto simp: pageOf_def numberOr_def pageSafe_def)
  have b: "q_page qu = Some v \<and> truthy (Some v) \<longrightarrow> pageOf toNumber qu = toNumber (jsString v)"
    by (auto simp: pageOf_def numberOr_def)
  have c: "\<not> truthy (q_limit qu) \<longrightarrow> limitSafe (limitOf toNumber qu) = 20"
    by (cases "q_limit qu") (auto simp: limitOf_def numberOr_def limitSafe_def)
  have d: "q_limit qu = Some w \<and> truthy (Some w) \<longrightarrow> limitOf toNumber qu = toNumber (jsString w)"
    by (auto simp: limitOf_def numberOr_def)
  have e: "pageSafe (Finite p) = max p 1 \<and> pageSafe NaN = 1 \<and> pageSafe PosInfinity = 1
      \<and> pageSafe NegInfinity = 1" by (simp add: pageSafe_def)
  have f: "limitSafe (Finite l) = min (max l 1) 50 \<and> limitSafe NaN = 20 \<and> limitSafe PosInfinity = 20
      \<and> limitSafe NegInfinity = 20 \<and> limitSafe (Finite 1000) = 50 \<and> limitSafe (Finite 0) = 1"
    by (simp add: limitSafe_def)
  let ?found = "filter (matches (buildFilter qu) (nonEmpty (trimmedString (q_q qu)))) store"
  let ?r = "\<lparr> r_items = skipLimit (skipOf (pageOf toNumber qu) (limitOf toNumber qu))
                        (limitSafe (limitOf toNumber qu)) (newestFirst ?found),
            r_total = length ?found,
            r_page = pageSafe (pageOf toNumber qu),
            r_limit = limitSafe (limitOf toNumber qu),
            r_totalPages = totalPagesOf (length ?found) (limitSafe (limitOf toNumber qu)) \<rparr>"
  have i: "pageSafe (pageOf toNumber qu) = of_int a \<and> limitSafe (limitOf toNumber qu) = of_int b
              \<and> (a - 1) * b < 2 ^ 53 \<longrightarrow>
              skipOf (pageOf toNumber qu) (limitOf toNumber qu) = Finite (of_int ((a - 1) * b))
              \<and> r_items ?r = take (nat b) (drop (nat ((a - 1) * b)) (newestFirst ?found))"
  proof
    assume h: "pageSafe (pageOf toNumber qu) = of_int a \<and> limitSafe (limitOf toNumber qu) = of_int b
              \<and> (a - 1) * b < 2 ^ 53"
    then have sk: "skipOf (pageOf toNumber qu) (limitOf toNumber qu) = Finite (of_int ((a - 1) * b))"
      using skipOf_integral[of "pageOf toNumber qu" a "limitOf toNumber qu" b] by blast
    have lb: "limitSafe (limitOf toNumber qu) = of_int b" using h by blast
    have "r_items ?r = take (nat b) (drop (nat ((a - 1) * b)) (newestFirst ?found))"
      unfolding sk lb by (simp only: skipLimit_integral listing.simps)
    with sk show "skipOf (pageOf toNumber qu) (limitOf toNumber qu) = Finite (of_int ((a - 1) * b))
              \<and> r_items ?r = take (nat b) (drop (nat ((a - 1) * b)) (newestFirst ?found))"
      by blast
  qed
  have g: "\<exists>r found. jobs_get toNumber qu store = Some r
         \<and> Job_find (buildFilter qu) store = Some found
         \<and> r_page r = pageSafe (pageOf toNumber qu)
         \<and> r_limit r = limitSafe (limitOf toNumber qu)
         \<and> r_items r = skipLimit (skipOf (pageOf toNumber qu) (limitOf toNumber qu))
                          (r_limit r) (newestFirst found)
         \<and> (pageSafe (pageOf toNumber qu) = of_int a \<and> limitSafe (limitOf toNumber qu) = of_int b
              \<and> (a - 1) * b < 2 ^ 53 \<longrightarrow>
              skipOf (pageOf toNumber qu) (limitOf toNumber qu) = Finite (of_int ((a - 1) * b))
              \<and> r_items r = take (nat b) (drop (nat ((a - 1) * b)) (newestFirst found)))"
  proof (intro exI[of _ ?r] exI[of _ ?found] conjI)
    show "jobs_get toNumber qu store = Some ?r" by (rule jobs_get_eq)
    show "Job_find (buildFilter qu) store = Some ?found" by (rule Job_find_buildFilter)
    show "r_page ?r = pageSafe (pageOf toNumber qu)" by simp
    show "r_limit ?r = limitSafe (limitOf toNumber qu)" by simp
    show "r_items ?r = skipLimit (skipOf (pageOf toNumber qu) (limitOf toNumber qu))
                          (r_limit ?r) (newestFirst ?found)" by simp
    show "pageSafe (pageOf toNumber qu) = of_int a \<and> limitSafe (limitOf toNumber qu) = of_int b
              \<and> (a - 1) * b < 2 ^ 53 \<longrightarrow>
              skipOf (pageOf toNumber qu) (limitOf toNumber qu) = Finite (of_int ((a - 1) * b))
              \<and> r_items ?r = take (nat b) (drop (nat ((a - 1) * b)) (newestFirst ?found))"
      by (rule i)
  qed
  have sk: "skipOf (pageOf toNumber qu) (limitOf toNumber qu)
       = (case roundDouble (pageSafe (pageOf toNumber qu) - 1) of
            Finite d \<Rightarrow> roundDouble (d * limitSafe (limitOf toNumber qu))
          | x \<Rightarrow> x)" by (simp add: skipOf_def)
  show ?thesis
    using a b c d e f g sk pageSafe_ge[of "pageOf toNumber qu"]
      limitSafe_bounds[of "limitOf toNumber qu"]
    by (intro conjI) blast+
qed

text \<open>
  No parameters; \<open>limit=1000\<close>; \<open>limit=0\<close>; \<open>page=Infinity\<close>; \<open>page=2\<close>; and
  \<open>page=2&limit=2\<close> over three listings, which skips two and returns the oldest. With
  \<open>page=2.6666666666666665&limit=3\<close> the product \<open>1.6666666666666665 * 3\<close> rounds to
  the double 5.
\<close>

theorem paging_is_clamped_witness:
  "pageSafe (pageOf sampleNumber noQuery) = 1
   \<and> limitSafe (limitOf sampleNumber noQuery) = 20
   \<and> limitSafe (limitOf sampleNumber (noQuery \<lparr> q_limit := Some (QStr ''1000'') \<rparr>)) = 50
   \<and> limitSafe (limitOf sampleNumber (noQuery \<lparr> q_limit := Some (QStr ''0'') \<rparr>)) = 1
   \<and> pageSafe (pageOf sampleNumber (noQuery \<lparr> q_page := Some (QStr ''Infinity'') \<rparr>)) = 1
   \<and> pageSafe (pageOf sampleNumber (noQuery \<lparr> q_page := Some (QStr ''2'') \<rparr>)) = 2
   \<and> skipOf (Finite 2) (Finite 2) = Finite 2
   \<and> map_option (map oid \<circ> r_items)
        (jobs_get sampleNumber (noQuery \<lparr> q_page := Some (QStr ''2''), q_limit := Some (QStr ''2'') \<rparr>)
           [sampleJob ''a'' ''Clerk'' 1 False, sampleJob ''b'' ''Nurse'' 3 False,
            sampleJob ''c'' ''Driver'' 2 False]) = Some [''a'']
   \<and> skipOf (sampleNumber ''2.6666666666666665'') (sampleNumber ''3'') = Finite 5"
proof -
  note t0 = paging_is_clamped[of 2 noQuery sampleNumber "QStr ''x''" 1000 "QStr ''x''" "[]" 1 20]
  note t1 = paging_is_clamped[of 2 "noQuery \<lparr> q_limit := Some (QStr ''1000'') \<rparr>" sampleNumber
      "QStr ''x''" 1000 "QStr ''1000''" "[]" 1 50]
  note t2 = paging_is_clamped[of 2 "noQuery \<lparr> q_limit := Some (QStr ''0'') \<rparr>" sampleNumber
      "QStr ''x''" 0 "QStr ''0''" "[]" 1 1]
  note t3 = paging_is_clamped[of 2 "noQuery \<lparr> q_page := Some (QStr ''Infinity'') \<rparr>" sampleNumber
      "QStr ''Infinity''" 0 "QStr ''0''" "[]" 1 20]
  note t4 = paging_is_clamped[of 2 "noQuery \<lparr> q_page := Some (QStr ''2'') \<rparr>" sampleNumber
      "QStr ''2''" 0 "QStr ''0''" "[]" 2 20]
  let ?q5 = "noQuery \<lparr> q_page := Some (QStr ''2''), q_limit := Some (QStr ''2'') \<rparr>"
  let ?st = "[sampleJob ''a'' ''Clerk'' 1 False, sampleJob ''b'' ''Nurse'' 3 False,
            sampleJob ''c'' ''Driver'' 2 False]"
  note t5 = paging_is_clamped[of 2 ?q5 sampleNumber "QStr ''2''" 2 "QStr ''2''" ?st 2 2]
  have a: "pageSafe (pageOf sampleNumber noQuery) = 1 \<and> limitSafe (limitOf sampleNumber noQuery) = 20"
    using t0 by (simp add: noQuery_def)
  have b: "limitSafe (limitOf sampleNumber (noQuery \<lparr> q_limit := Some (QStr ''1000'') \<rparr>)) = 50"
  proof -
    have "limitOf sampleNumber (noQuery \<lparr> q_limit := Some (QStr ''1000'') \<rparr>) = Finite 1000"
      using t1 by (simp add: sampleNumber_def)
    then show ?thesis using t1 by simp
  qed
  have c: "limitSafe (limitOf sampleNumber (noQuery \<lparr> q_limit := Some (QStr ''0'') \<rparr>)) = 1"
  proof -
    have "limitOf sampleNumber (noQuery \<lparr> q_limit := Some (QStr ''0'') \<rparr>) = Finite 0"
      using t2 by (simp add: sampleNumber_def)
    then show ?thesis using t2 by simp
  qed
  have d: "pageSafe (pageOf sampleNumber (noQuery \<lparr> q_page := Some (QStr ''Infinity'') \<rparr>)) = 1"
  proof -
    have "pageOf sampleNumber (noQuery \<lparr> q_page := Some (QStr ''Infinity'') \<rparr>) = PosInfinity"
      using t3 by (simp add: sampleNumber_def)
    then show ?thesis using t3 by simp
  qed
  have e: "pageSafe (pageOf sampleNumber (noQuery \<lparr> q_page := Some (QStr ''2'') \<rparr>)) = 2"
  proof -
    have "pageOf sampleNumber (noQuery \<lparr> q_page := Some (QStr ''2'') \<rparr>) = Finite 2"
      using t4 by (simp add: sampleNumber_def)
    then show ?thesis using t4 by simp
  qed
  have p5: "pageOf sampleNumber ?q5 = Finite 2" "limitOf sampleNumber ?q5 = Finite 2"
    using t5 by (simp_all add: sampleNumber_def)
  have h5: "pageSafe (pageOf sampleNumber ?q5) = of_int 2 \<and> limitSafe (limitOf sampleNumber ?q5) = of_int 2
      \<and> (2 - 1) * 2 < (2::int) ^ 53"
    by (simp add: p5 pageSafe_def limitSafe_def)
  from t5 obtain r found where r: "jobs_get sampleNumber ?q5 ?st = Some r"
      "Job_find (buildFilter ?q5) ?st = Some found"
      "pageSafe (pageOf sampleNumber ?q5) = of_int 2 \<and> limitSafe (limitOf sampleNumber ?q5) = of_int 2
              \<and> (2 - 1) * 2 < (2::int) ^ 53 \<longrightarrow>
              skipOf (pageOf sampleNumber ?q5) (limitOf sampleNumber ?q5) = Finite (of_int ((2 - 1) * 2))
              \<and> r_items r = take (nat 2) (drop (nat ((2 - 1) * 2)) (newestFirst found))"
    by blast
  from r(3) h5 have sk: "skipOf (pageOf sampleNumber ?q5) (limitOf sampleNumber ?q5) = Finite (of_int ((2 - 1) * 2))"
    and it: "r_items r = take (nat 2) (drop (nat ((2 - 1) * 2)) (newestFirst found))" by blast+
  have f: "skipOf (Finite 2) (Finite 2) = Finite 2" using sk by (simp add: p5)
  have fd: "map_option (map oid \<circ> newestFirst) (Job_find (buildFilter ?q5) ?st) = Some [''b'', ''c'', ''a'']"
    by code_simp
  from fd r(2) have "map oid (newestFirst found) = [''b'', ''c'', ''a'']" by simp
  then have "map oid (r_items r) = [''a'']" unfolding it by (simp add: take_map[symmetric] drop_map[symmetric] del: take_map drop_map)
  with r(1) have g: "map_option (map oid \<circ> r_items) (jobs_get sampleNumber ?q5 ?st) = Some [''a'']"
    by simp
  have k: "skipOf (sampleNumber ''2.6666666666666665'') (sampleNumber ''3'') = Finite 5"
    by code_simp
  from a b c d e f g k show ?thesis by simp
qed

section \<open>C4: the shape of the listing response\<close>

text \<open>
  Claim C4. Every request to \<open>GET /api/jobs\<close> is answered; in the response,
  \<open>total\<close> is the number of documents of the store that match the filter;
  \<open>totalPages\<close> is \<open>max(ceil(total / limit), 1)\<close> as the language computes it, with
  the quotient rounded to a double; when the limit is an integer and fewer than \<open>2^47\<close>
  documents match, the rounding changes nothing and \<open>totalPages\<close> is the integer
  \<open>max(ceil(total / limit), 1)\<close>; the page is at least 1, the limit is between 1 and
  50, there are at most \<open>limit\<close> items, the items are ordered newest created first, and
  every item matches the filter.
\<close>

theorem listing_response_shape:
  "\<exists>r. jobs_get toNumber qu store = Some r
     \<and> r_total r = length (filter (matches (buildFilter qu)
                                     (nonEmpty (trimmedString (q_q qu)))) store)
     \<and> r_totalPages r
         = (case roundDouble (of_nat (r_total r) / r_limit r) of
              Finite d \<Rightarrow> Finite (of_int (max \<lceil>d\<rceil> 1))
            | x \<Rightarrow> x)
     \<and> (r_limit r = of_int b \<and> r_total r < 2 ^ 47 \<longrightarrow>
          r_totalPages r = Finite (of_int (max \<lceil>of_nat (r_total r) / r_limit r\<rceil> 1)))
     \<and> 1 \<le> r_page r
     \<and> 1 \<le> r_limit r \<and> r_limit r \<le> 50
     \<and> of_nat (length (r_items r)) \<le> r_limit r
     \<and> sorted_wrt (\<lambda>a b. createdAt b \<le> createdAt a) (r_items r)
     \<and> set (r_items r) \<subseteq> set (filter (matches (buildFilter qu)
                                          (nonEmpty (trimmedString (q_q qu)))) store)"
proof -
  let ?found = "filter (matches (buildFilter qu) (nonEmpty (trimmedString (q_q qu)))) store"
  let ?l = "limitSafe (limitOf toNumber qu)"
  let ?items = "skipLimit (skipOf (pageOf toNumber qu) (limitOf toNumber qu)) ?l (newestFirst ?found)"
  have lb: "1 \<le> ?l \<and> ?l \<le> 50" by (rule limitSafe_bounds)
  then have l0: "0 \<le> ?l" by simp
  have len: "of_nat (length ?items) \<le> ?l" by (rule length_skipLimit[OF l0])
  have srt: "sorted_wrt (\<lambda>a b. createdAt b \<le> createdAt a) ?items"
    by (rule skipLimit_sorted[OF newestFirst_sorted])
  have sub: "set ?items \<subseteq> set ?found"
    using set_skipLimit[of _ _ "newestFirst ?found"] by (simp add: set_newestFirst)
  have ex: "?l = of_int b \<and> length ?found < 2 ^ 47 \<longrightarrow>
      totalPagesOf (length ?found) ?l = Finite (of_int (max \<lceil>of_nat (length ?found) / ?l\<rceil> 1))"
  proof
    assume h: "?l = of_int b \<and> length ?found < 2 ^ 47"
    with lb have "(1::rat) \<le> of_int b" "(of_int b :: rat) \<le> 50" by simp_all
    then have b: "1 \<le> b" "b \<le> 50" by simp_all
    from totalPagesOf_integral[OF b, of "length ?found"] h
    show "totalPagesOf (length ?found) ?l = Finite (of_int (max \<lceil>of_nat (length ?found) / ?l\<rceil> 1))"
      by simp
  qed
  show ?thesis
    using lb len srt sub ex pageSafe_ge[of "pageOf toNumber qu"]
    by (simp add: jobs_get_eq totalPagesOf_def)
qed

text \<open>
  Three listings and \<open>limit=2\<close>: two pages, the two newest listings on the first. Six
  listings and \<open>limit=1.2\<close>: the quotient of 6 by the double nearest to 1.2 rounds to
  the double 5, and there are five pages.
\<close>

theorem listing_response_shape_witness:
  "(\<exists>r. jobs_get sampleNumber (noQuery \<lparr> q_limit := Some (QStr ''2'') \<rparr>)
           [sampleJob ''a'' ''Clerk'' 1 False, sampleJob ''b'' ''Nurse'' 3 False,
            sampleJob ''c'' ''Driver'' 2 False] = Some r
        \<and> r_total r = 3 \<and> r_limit r = 2 \<and> r_totalPages r = Finite 2
        \<and> map oid (r_items r) = [''b'', ''c''])
   \<and> map_option r_totalPages
        (jobs_get sampleNumber (noQuery \<lparr> q_limit := Some (QStr ''1.2'') \<rparr>)
           [sampleJob ''a'' ''Clerk'' 1 False, sampleJob ''b'' ''Nurse'' 2 False,
            sampleJob ''c'' ''Driver'' 3 False, sampleJob ''d'' ''Guard'' 4 False,
            sampleJob ''e'' ''Cook'' 5 False, sampleJob ''f'' ''Tutor'' 6 False]) = Some (Finite 5)"
proof -
  let ?qu = "noQuery \<lparr> q_limit := Some (QStr ''2'') \<rparr>"
  let ?st = "[sampleJob ''a'' ''Clerk'' 1 False, sampleJob ''b'' ''Nurse'' 3 False,
            sampleJob ''c'' ''Driver'' 2 False]"
  from listing_response_shape[of sampleNumber ?qu ?st 2] obtain r where
    r: "jobs_get sampleNumber ?qu ?st = Some r"
       "r_limit r = of_int 2 \<and> r_total r < 2 ^ 47 \<longrightarrow>
          r_totalPages r = Finite (of_int (max \<lceil>of_nat (r_total r) / r_limit r\<rceil> 1))"
    by blast
  have v: "map_option (\<lambda>r. (r_total r, r_limit r, map oid (r_items r))) (jobs_get sampleNumber ?qu ?st)
            = Some (3, 2, [''b'', ''c''])" by code_simp
  from v r(1) have f: "r_total r = 3" "r_limit r = 2" "map oid (r_items r) = [''b'', ''c'']"
    by simp_all
  have "r_limit r = of_int 2 \<and> r_total r < 2 ^ 47" using f by simp
  with r(2) have "r_totalPages r = Finite (of_int (max \<lceil>of_nat (r_total r) / r_limit r\<rceil> 1))"
    by blast
  moreover have "max \<lceil>(3::rat) / 2\<rceil> 1 = 2" by (simp add: ceiling_eq_iff)
  ultimately have tp: "r_totalPages r = Finite 2" using f by simp
  have first: "\<exists>r. jobs_get sampleNumber ?qu ?st = Some r
        \<and> r_total r = 3 \<and> r_limit r = 2 \<and> r_totalPages r = Finite 2
        \<and> map oid (r_items r) = [''b'', ''c'']"
    by (rule exI[of _ r], intro conjI, rule r(1), rule f(1), rule f(2), rule tp, rule f(3))
  have second: "map_option r_totalPages
        (jobs_get sampleNumber (noQuery \<lparr> q_limit := Some (QStr ''1.2'') \<rparr>)
           [sampleJob ''a'' ''Clerk'' 1 False, sampleJob ''b'' ''Nurse'' 2 False,
            sampleJob ''c'' ''Driver'' 3 False, sampleJob ''d'' ''Guard'' 4 False,
            sampleJob ''e'' ''Cook'' 5 False, sampleJob ''f'' ''Tutor'' 6 False]) = Some (Finite 5)"
    by code_simp
  from first second show ?thesis by (rule conjI)
qed

section \<open>C5: expired listings\<close>

text \<open>
  Claim C5. Expired listings are included exactly when the string form of the
  \<open>includeExpired\<close> parameter is \<open>1\<close>; an absent parameter excludes them. When they
  are excluded, the filter requires \<open>isExpired = false\<close>, the request is answered and
  no returned item is expired. When they are included, the filter has no condition on
  \<open>isExpired\<close>: whether a document matches does not depend on its \<open>isExpired\<close>.
\<close>

theorem expired_excluded_by_default:
  "(includeExpired qu
      = (case q_includeExpired qu of None \<Rightarrow> False | Some v \<Rightarrow> jsString v = ''1''))
   \<and> (\<not> includeExpired qu \<longrightarrow>
        f_isExpired (buildFilter qu) = Some False
        \<and> (\<exists>r. jobs_get toNumber qu store = Some r
               \<and> list_all (\<lambda>j. \<not> isExpired j) (r_items r)))
   \<and> (includeExpired qu \<longrightarrow>
        f_isExpired (buildFilter qu) = None
        \<and> matches (buildFilter qu) lit (j \<lparr> isExpired := b \<rparr>) = matches (buildFilter qu) lit j)"
proof -
  have a: "\<not> includeExpired qu \<longrightarrow>
        f_isExpired (buildFilter qu) = Some False
        \<and> (\<exists>r. jobs_get toNumber qu store = Some r
               \<and> list_all (\<lambda>j. \<not> isExpired j) (r_items r))"
  proof
    assume n: "\<not> includeExpired qu"
    then have f: "f_isExpired (buildFilter qu) = Some False" by (simp add: buildFilter_def)
    let ?found = "filter (matches (buildFilter qu) (nonEmpty (trimmedString (q_q qu)))) store"
    have "\<And>x. x \<in> set ?found \<Longrightarrow> \<not> isExpired x"
      using matches_not_expired[OF f] by auto
    moreover have "set (skipLimit (skipOf (pageOf toNumber qu) (limitOf toNumber qu))
                      (limitSafe (limitOf toNumber qu)) (newestFirst ?found)) \<subseteq> set ?found"
      using set_skipLimit[of _ _ "newestFirst ?found"] by (simp add: set_newestFirst)
    ultimately have "list_all (\<lambda>j. \<not> isExpired j)
       (skipLimit (skipOf (pageOf toNumber qu) (limitOf toNumber qu))
                      (limitSafe (limitOf toNumber qu)) (newestFirst ?found))"
      unfolding list_all_iff by blast
    then show "f_isExpired (buildFilter qu) = Some False
        \<and> (\<exists>r. jobs_get toNumber qu store = Some r
               \<and> list_all (\<lambda>j. \<not> isExpired j) (r_items r))"
      using f by (simp add: jobs_get_eq)
  qed
  have b: "includeExpired qu \<longrightarrow>
        f_isExpired (buildFilter qu) = None
        \<and> matches (buildFilter qu) lit (j \<lparr> isExpired := b \<rparr>) = matches (buildFilter qu) lit j"
    using matches_isExpired_None[where f = "buildFilter qu" and lit = lit and j = j and b = b] by (simp add: buildFilter_def)
  show ?thesis using a b includeExpired_cases[of qu] by blast
qed

text \<open>
  A store with one live and one expired listing: without the parameter only the live one
  is returned, with \<open>includeExpired=1\<close> both are.
\<close>

theorem expired_excluded_by_default_witness:
  "\<not> includeExpired noQuery
   \<and> map_option (map oid \<circ> r_items)
       (jobs_get sampleNumber noQuery
          [sampleJob ''a'' ''Clerk'' 1 False, sampleJob ''b'' ''Nurse'' 2 True]) = Some [''a'']
   \<and> includeExpired (noQuery \<lparr> q_includeExpired := Some (QStr ''1'') \<rparr>)
   \<and> map_option (map oid \<circ> r_items)
       (jobs_get sampleNumber (noQuery \<lparr> q_includeExpired := Some (QStr ''1'') \<rparr>)
          [sampleJob ''a'' ''Clerk'' 1 False, sampleJob ''b'' ''Nurse'' 2 True]) = Some [''b'', ''a'']
   \<and> (\<exists>r. jobs_get sampleNumber noQuery
            [sampleJob ''a'' ''Clerk'' 1 False, sampleJob ''b'' ''Nurse'' 2 True] = Some r
          \<and> list_all (\<lambda>j. \<not> isExpired j) (r_items r))
   \<and> f_isExpired (buildFilter (noQuery \<lparr> q_includeExpired := Some (QStr ''1'') \<rparr>)) = None"
proof -
  let ?st = "[sampleJob ''a'' ''Clerk'' 1 False, sampleJob ''b'' ''Nurse'' 2 True]"
  let ?q1 = "noQuery \<lparr> q_includeExpired := Some (QStr ''1'') \<rparr>"
  have n: "\<not> includeExpired noQuery" by code_simp
  have y: "includeExpired ?q1" by code_simp
  have e1: "map_option (map oid \<circ> r_items) (jobs_get sampleNumber noQuery ?st) = Some [''a'']"
    by code_simp
  have e2: "map_option (map oid \<circ> r_items) (jobs_get sampleNumber ?q1 ?st) = Some [''b'', ''a'']"
    by code_simp
  from expired_excluded_by_default[of noQuery sampleNumber ?st] n
  have w1: "\<exists>r. jobs_get sampleNumber noQuery ?st = Some r
          \<and> list_all (\<lambda>j. \<not> isExpired j) (r_items r)" by blast
  from expired_excluded_by_default[of ?q1 sampleNumber ?st] y
  have w2: "f_isExpired (buildFilter ?q1) = None" by blast
  from n y e1 e2 w1 w2 show ?thesis by blast
qed

section \<open>C6: the search term is taken literally\<close>

text \<open>
  Claim C6. Every metacharacter of the pattern engine is in the class that
  \<open>escapeRegex\<close> escapes, and \<open>escapeRegex\<close> puts a backslash before it; a character
  outside the class is left as it is. For a search string \<open>q\<close> that is not blank, the
  filter searches for the escaped, trimmed string; the escaped string is a pattern of the
  engine with no operator, no escape sequence and no syntax error, and it stands for the
  trimmed string itself, whichever characters that contains, so the query never reaches a
  pattern the engine could reject; the documents found are those that satisfy the other
  conditions of the filter and contain the trimmed string, letter case ignored, in the
  title, the department, the state or the qualification; and the request is answered.
\<close>

theorem search_term_is_literal:
  assumes "q_q qu = Some (QStr raw)" and "trim raw \<noteq> []"
  shows "(patternSyntaxChar c \<longrightarrow> regexSpecial c \<and> escapeRegex [c] = [CHR 0x5C, c])
     \<and> (\<not> regexSpecial c \<longrightarrow> escapeRegex [c] = [c])
     \<and> f_or (buildFilter qu) = Some (escapeRegex (trim raw))
     \<and> literalPattern (escapeRegex (trim raw)) = Some (trim raw)
     \<and> Job_find (buildFilter qu) store
         = Some (filter (\<lambda>j. matches (buildFilter qu) None j
                    \<and> (containsCI (trim raw) (title j) \<or> containsCI (trim raw) (department j)
                        \<or> containsCI (trim raw) (state j)
                        \<or> containsCI (trim raw) (qualification j))) store)
     \<and> (\<exists>r. jobs_get toNumber qu store = Some r)"
proof -
  have ne: "nonEmpty (trimmedString (q_q qu)) = Some (trim raw)"
    using assms by (simp add: nonEmpty_def)
  then have a: "f_or (buildFilter qu) = Some (escapeRegex (trim raw))"
    by (simp add: buildFilter_def)
  have b: "literalPattern (escapeRegex (trim raw)) = Some (trim raw)"
    by (rule literalPattern_escapeRegex)
  have c: "Job_find (buildFilter qu) store
         = Some (filter (\<lambda>j. matches (buildFilter qu) None j
                    \<and> (containsCI (trim raw) (title j) \<or> containsCI (trim raw) (department j)
                        \<or> containsCI (trim raw) (state j)
                        \<or> containsCI (trim raw) (qualification j))) store)"
    unfolding Job_find_buildFilter ne matches_Some ..
  have d: "\<exists>r. jobs_get toNumber qu store = Some r" by (simp add: jobs_get_eq)
  have e: "patternSyntaxChar c \<longrightarrow> regexSpecial c \<and> escapeRegex [c] = [CHR 0x5C, c]"
    using syntax_is_escaped[of c] by (simp add: escapeRegex_Cons escapeRegex_Nil)
  have f: "\<not> regexSpecial c \<longrightarrow> escapeRegex [c] = [c]"
    by (simp add: escapeRegex_Cons escapeRegex_Nil)
  from a b c d e f show ?thesis by blast
qed

text \<open>
  The search string \<open>c++\<close>: the plus sign is a metacharacter of the engine, the string
  is escaped to \<open>c\+\+\<close> and finds the listing whose title contains \<open>C++\<close>, not the
  one that contains \<open>c+\<close> only.
\<close>

theorem search_term_is_literal_witness:
  "patternSyntaxChar (CHR ''+'')
   \<and> escapeRegex ''+'' = [CHR 0x5C, CHR ''+'']
   \<and> escapeRegex ''c++'' = [CHR ''c'', CHR 0x5C, CHR ''+'', CHR 0x5C, CHR ''+'']
   \<and> f_or (buildFilter (noQuery \<lparr> q_q := Some (QStr '' c++ '') \<rparr>)) = Some (escapeRegex ''c++'')
   \<and> literalPattern (escapeRegex ''c++'') = Some ''c++''
   \<and> map_option (map oid)
        (Job_find (buildFilter (noQuery \<lparr> q_q := Some (QStr '' c++ '') \<rparr>))
           [sampleJob ''a'' ''Senior C++ Developer'' 1 False,
            sampleJob ''b'' ''Accountant'' 2 False,
            sampleJob ''c'' ''Lab assistant (c+)'' 3 False]) = Some [''a'']"
proof -
  let ?qu = "noQuery \<lparr> q_q := Some (QStr '' c++ '') \<rparr>"
  let ?st = "[sampleJob ''a'' ''Senior C++ Developer'' 1 False,
            sampleJob ''b'' ''Accountant'' 2 False,
            sampleJob ''c'' ''Lab assistant (c+)'' 3 False]"
  have t: "trim '' c++ '' = ''c++''" by code_simp
  have h1: "q_q ?qu = Some (QStr '' c++ '')" by simp
  have h2: "trim '' c++ '' \<noteq> []" by (simp add: t)
  note th = search_term_is_literal[OF h1 h2, of "CHR ''+''" ?st sampleNumber, unfolded t]
  have p: "patternSyntaxChar (CHR ''+'')" by (simp add: patternSyntaxChar_def)
  from th p have q: "escapeRegex ''+'' = [CHR 0x5C, CHR ''+'']" by blast
  have e: "escapeRegex ''c++'' = [CHR ''c'', CHR 0x5C, CHR ''+'', CHR 0x5C, CHR ''+'']"
    by code_simp
  have m: "map oid (filter (\<lambda>j. matches (buildFilter ?qu) None j
                    \<and> (containsCI ''c++'' (title j) \<or> containsCI ''c++'' (department j)
                        \<or> containsCI ''c++'' (state j)
                        \<or> containsCI ''c++'' (qualification j))) ?st) = [''a'']"
    by code_simp
  have r: "f_or (buildFilter ?qu) = Some (escapeRegex ''c++'')
      \<and> literalPattern (escapeRegex ''c++'') = Some ''c++''
      \<and> Job_find (buildFilter ?qu) ?st
         = Some (filter (\<lambda>j. matches (buildFilter ?qu) None j
                    \<and> (containsCI ''c++'' (title j) \<or> containsCI ''c++'' (department j)
                        \<or> containsCI ''c++'' (state j)
                        \<or> containsCI ''c++'' (qualification j))) ?st)"
    using th by blast
  from r m e p q show ?thesis by simp
qed

section \<open>C7: the access control gate\<close>

text \<open>
  Claim C7. \<open>requireAdmin\<close> answers 401 when no token (or an empty one) can be
  extracted; it answers 401 when the verification throws, whatever it throws, so that
  two requests whose tokens fail verification for different reasons get the same
  response; it answers 403 when the verification succeeds and the role is not
  \<open>admin\<close>; otherwise it attaches the verified claims to the request and calls
  \<open>next\<close>.
\<close>

theorem requireAdmin_outcomes:
  "(getToken (request r) = None \<or> getToken (request r) = Some [] \<longrightarrow>
      requireAdmin getToken verify r = Responded 401 ''Unauthorized'')
   \<and> (getToken (request r) = Some t \<and> t \<noteq> [] \<and> verify t = Inl e \<longrightarrow>
        requireAdmin getToken verify r = Responded 401 ''Unauthorized'')
   \<and> (getToken (request r) = Some t \<and> t \<noteq> [] \<and> verify t = Inr pl \<and> p_role pl \<noteq> ''admin'' \<longrightarrow>
        requireAdmin getToken verify r = Responded 403 ''Forbidden'')
   \<and> (getToken (request r) = Some t \<and> t \<noteq> [] \<and> verify t = Inr pl \<and> p_role pl = ''admin'' \<longrightarrow>
        requireAdmin getToken verify r = Next (r \<lparr> auth := Some pl \<rparr>))
   \<and> (getToken (request r) = Some t \<and> t \<noteq> [] \<and> verify t = Inl e
        \<and> getToken (request r') = Some t' \<and> t' \<noteq> [] \<and> verify t' = Inl e' \<longrightarrow>
        requireAdmin getToken verify r = requireAdmin getToken verify r')"
  by (auto simp: requireAdmin_def)

text \<open>
  No token, an expired token, a malformed token, a token of a plain user, a token of an
  administrator.
\<close>

theorem requireAdmin_outcomes_witness:
  "requireAdmin (\<lambda>x. x) sampleVerify \<lparr> request = None, auth = None \<rparr> = Responded 401 ''Unauthorized''
   \<and> requireAdmin (\<lambda>x. x) sampleVerify \<lparr> request = Some ''expired'', auth = None \<rparr>
       = Responded 401 ''Unauthorized''
   \<and> requireAdmin (\<lambda>x. x) sampleVerify \<lparr> request = Some ''expired'', auth = None \<rparr>
       = requireAdmin (\<lambda>x. x) sampleVerify \<lparr> request = Some ''garbage'', auth = None \<rparr>
   \<and> requireAdmin (\<lambda>x. x) sampleVerify \<lparr> request = Some ''user'', auth = None \<rparr>
       = Responded 403 ''Forbidden''
   \<and> requireAdmin (\<lambda>x. x) sampleVerify \<lparr> request = Some ''admin'', auth = None \<rparr>
       = Next \<lparr> request = Some ''admin'',
                auth = Some \<lparr> p_sub = ''1'', p_name = None, p_email = ''a@example.org'',
                              p_role = ''admin'' \<rparr> \<rparr>"
proof -
  let ?g = "\<lambda>x :: string option. x"
  let ?adm = "\<lparr> p_sub = ''1'', p_name = None, p_email = ''a@example.org'', p_role = ''admin'' \<rparr>"
  let ?usr = "\<lparr> p_sub = ''1'', p_name = None, p_email = ''a@example.org'', p_role = ''user'' \<rparr>"
  have a: "requireAdmin ?g sampleVerify \<lparr> request = None, auth = None \<rparr> = Responded 401 ''Unauthorized''"
    using requireAdmin_outcomes[of ?g "\<lparr> request = None, auth = None \<rparr>" sampleVerify]
    by simp
  have b: "requireAdmin ?g sampleVerify \<lparr> request = Some ''expired'', auth = None \<rparr>
       = Responded 401 ''Unauthorized''"
    using requireAdmin_outcomes[of ?g "\<lparr> request = Some ''expired'', auth = None \<rparr>" sampleVerify
        "''expired''" "''TokenExpiredError''"]
    by (simp add: sampleVerify_def)
  have c: "requireAdmin ?g sampleVerify \<lparr> request = Some ''expired'', auth = None \<rparr>
       = requireAdmin ?g sampleVerify \<lparr> request = Some ''garbage'', auth = None \<rparr>"
    using requireAdmin_outcomes[of ?g "\<lparr> request = Some ''expired'', auth = None \<rparr>" sampleVerify
        "''expired''" "''TokenExpiredError''" ?adm "\<lparr> request = Some ''garbage'', auth = None \<rparr>"
        "''garbage''" "''JsonWebTokenError''"]
    by (auto simp: sampleVerify_def)
  have d: "requireAdmin ?g sampleVerify \<lparr> request = Some ''user'', auth = None \<rparr>
       = Responded 403 ''Forbidden''"
    using requireAdmin_outcomes[of ?g "\<lparr> request = Some ''user'', auth = None \<rparr>" sampleVerify
        "''user''" "''x''" ?usr]
    by (simp add: sampleVerify_def)
  have e: "requireAdmin ?g sampleVerify \<lparr> request = Some ''admin'', auth = None \<rparr>
       = Next \<lparr> request = Some ''admin'', auth = Some ?adm \<rparr>"
    using requireAdmin_outcomes[of ?g "\<lparr> request = Some ''admin'', auth = None \<rparr>" sampleVerify
        "''admin''" "''x''" ?adm]
    by (simp add: sampleVerify_def)
  from a b c d e show ?thesis by simp
qed

section \<open>C8: the two login failures look the same\<close>

text \<open>
  Claim C8. Of two login attempts with well-formed bodies, one with an e-mail that is
  not in the credential store and one with a known e-mail and a password that fails the
  hash verification, both get status 401 with the same error message, so the responses
  are equal.
\<close>

theorem login_failures_identical:
  assumes "loginSchema isEmail body1 = Some d1"
    and "User_findOne_email users (toLowerCase (log_email d1)) = None"
    and "loginSchema isEmail body2 = Some d2"
    and "User_findOne_email users (toLowerCase (log_email d2)) = Some u"
    and "verifyPassword (log_password d2) (u_password u) = Inr False"
  shows "login isEmail verifyPassword signAuthToken createAuthCookie body1 users
           = Fail 401 ''Invalid email or password''
       \<and> login isEmail verifyPassword signAuthToken createAuthCookie body2 users
           = Fail 401 ''Invalid email or password''
       \<and> login isEmail verifyPassword signAuthToken createAuthCookie body1 users
           = login isEmail verifyPassword signAuthToken createAuthCookie body2 users"
  using assms by (simp add: login_def)

text \<open>An unknown e-mail and a wrong password; the right password logs in.\<close>

theorem login_failures_identical_witness:
  "login sampleIsEmail sampleVerifyPassword sampleSign (\<lambda>t. t)
       (credentials ''nobody@example.org'' ''secret-one'') sampleUsers
     = Fail 401 ''Invalid email or password''
   \<and> login sampleIsEmail sampleVerifyPassword sampleSign (\<lambda>t. t)
       (credentials ''Asha@Example.org'' ''wrong-password'') sampleUsers
     = Fail 401 ''Invalid email or password''
   \<and> login sampleIsEmail sampleVerifyPassword sampleSign (\<lambda>t. t)
       (credentials ''Asha@Example.org'' ''secret-one'') sampleUsers
     = Ok 200 ''token-of-1''"
proof -
  have l1: "toLowerCase ''nobody@example.org'' = ''nobody@example.org''" by code_simp
  have l2: "toLowerCase ''Asha@Example.org'' = ''asha@example.org''" by code_simp
  have a: "loginSchema sampleIsEmail (credentials ''nobody@example.org'' ''secret-one'')
        = Some \<lparr> log_email = ''nobody@example.org'', log_password = ''secret-one'' \<rparr>"
    by (simp add: loginSchema_credentials sampleIsEmail_def)
  have b: "User_findOne_email sampleUsers
        (toLowerCase (log_email \<lparr> log_email = ''nobody@example.org'', log_password = ''secret-one'' \<rparr>)) = None"
    by (simp add: l1 User_findOne_email_def sampleUsers_def)
  have c: "loginSchema sampleIsEmail (credentials ''Asha@Example.org'' ''wrong-password'')
        = Some \<lparr> log_email = ''Asha@Example.org'', log_password = ''wrong-password'' \<rparr>"
    by (simp add: loginSchema_credentials sampleIsEmail_def)
  have d: "User_findOne_email sampleUsers
        (toLowerCase (log_email \<lparr> log_email = ''Asha@Example.org'', log_password = ''wrong-password'' \<rparr>))
      = Some \<lparr> u_id = ''1'', u_name = ''Asha'', u_email = ''asha@example.org'',
        u_password = ''hash:secret-one'', u_role = ''user'' \<rparr>"
    by (simp add: l2 User_findOne_email_def sampleUsers_def)
  have e: "sampleVerifyPassword
        (log_password \<lparr> log_email = ''Asha@Example.org'', log_password = ''wrong-password'' \<rparr>)
        (u_password \<lparr> u_id = ''1'', u_name = ''Asha'', u_email = ''asha@example.org'',
        u_password = ''hash:secret-one'', u_role = ''user'' \<rparr>) = Inr False"
    by (simp add: sampleVerifyPassword_def)
  note th = login_failures_identical[where signAuthToken = sampleSign
      and createAuthCookie = "\<lambda>t. t" and verifyPassword = sampleVerifyPassword
      and isEmail = sampleIsEmail, OF a b c d e]
  have ok: "login sampleIsEmail sampleVerifyPassword sampleSign (\<lambda>t. t)
       (credentials ''Asha@Example.org'' ''secret-one'') sampleUsers = Ok 200 ''token-of-1''"
    by (simp add: login_def loginSchema_credentials sampleIsEmail_def l2 User_findOne_email_def
        sampleUsers_def sampleVerifyPassword_def sampleSign_def)
  from th ok show ?thesis by simp
qed

section \<open>C9: registering an e-mail twice\<close>

text \<open>
  Claim C9. For a registration attempt with a well-formed body: when the lowercased
  e-mail belongs to a stored user at the existence check, the response is 409 and the
  store is unchanged; when the check passes but the create then meets the duplicate-key
  condition of the store (another request has registered the e-mail in between), the
  response is 409 as well and the store is as the other request left it; a failing
  attempt never changes the store; and a successful attempt answers 201 and adds exactly
  one user, with the lowercased e-mail, the role \<open>user\<close> and the trimmed name.
\<close>

theorem register_duplicate_conflict:
  assumes "registerSchema isEmail body = Some d"
  shows "(User_exists_email users (toLowerCase (reg_email d)) \<longrightarrow>
            register isEmail hashPassword newId others body users
              = (Fail 409 ''Email already registered'', users))
       \<and> (\<not> User_exists_email users (toLowerCase (reg_email d))
            \<and> hashPassword (reg_password d) = Inr hashed
            \<and> User_create newId
                 \<lparr> u_id = [], u_name = trim (reg_name d), u_email = toLowerCase (reg_email d),
                   u_password = hashed, u_role = ''user'' \<rparr> (others users) = Inl DuplicateKey \<longrightarrow>
            register isEmail hashPassword newId others body users
              = (Fail 409 ''Email already registered'', others users))
       \<and> (register isEmail hashPassword newId others body users = (Fail code msg, users') \<longrightarrow>
            users' = users \<or> users' = others users)
       \<and> (register isEmail hashPassword newId others body users = (Ok code x, users') \<longrightarrow>
            code = 201
            \<and> (\<exists>usr. users' = others users @ [usr]
                  \<and> u_email usr = toLowerCase (reg_email d) \<and> u_role usr = ''user''
                  \<and> u_name usr = trim (reg_name d)))"
proof -
  have a: "User_exists_email users (toLowerCase (reg_email d)) \<longrightarrow>
            register isEmail hashPassword newId others body users
              = (Fail 409 ''Email already registered'', users)"
    using assms by (simp add: register_def)
  have b: "\<not> User_exists_email users (toLowerCase (reg_email d))
            \<and> hashPassword (reg_password d) = Inr hashed
            \<and> User_create newId
                 \<lparr> u_id = [], u_name = trim (reg_name d), u_email = toLowerCase (reg_email d),
                   u_password = hashed, u_role = ''user'' \<rparr> (others users) = Inl DuplicateKey \<longrightarrow>
            register isEmail hashPassword newId others body users
              = (Fail 409 ''Email already registered'', others users)"
    using assms by (simp add: register_def)
  show ?thesis
    using a b register_failure_store[of isEmail hashPassword newId others body users code msg users']
      register_success[OF assms, of hashPassword newId others users code x users']
    by blast
qed

text \<open>
  A duplicate found by the check, a duplicate found by the unique index, and a new user.
\<close>

theorem register_duplicate_conflict_witness:
  "register sampleIsEmail sampleHash ''2'' (\<lambda>us. us)
       (registration ''Asha Again'' ''Asha@Example.org'' ''another-secret'') sampleUsers
     = (Fail 409 ''Email already registered'', sampleUsers)
   \<and> register sampleIsEmail sampleHash ''2'' (\<lambda>us. sampleUsers)
       (registration ''Asha Again'' ''Asha@Example.org'' ''another-secret'') []
     = (Fail 409 ''Email already registered'', sampleUsers)
   \<and> register sampleIsEmail sampleHash ''2'' (\<lambda>us. us)
       (registration '' Ravi '' ''Ravi@Example.org'' ''secret-two'') sampleUsers
     = (Ok 201 (),
        sampleUsers @ [\<lparr> u_id = ''2'', u_name = ''Ravi'', u_email = ''ravi@example.org'',
                         u_password = ''hash:secret-two'', u_role = ''user'' \<rparr>])"
proof -
  let ?b = "registration ''Asha Again'' ''Asha@Example.org'' ''another-secret''"
  let ?d = "\<lparr> reg_name = ''Asha Again'', reg_email = ''Asha@Example.org'',
              reg_password = ''another-secret'' \<rparr>"
  have l: "toLowerCase ''Asha@Example.org'' = ''asha@example.org''" by code_simp
  have tn: "trim ''Asha Again'' = ''Asha Again''" by code_simp
  have p: "registerSchema sampleIsEmail ?b = Some ?d"
    by (simp add: registerSchema_registration sampleIsEmail_def)
  have ex: "User_exists_email sampleUsers (toLowerCase (reg_email ?d))"
    by (simp add: l User_exists_email_def sampleUsers_def)
  have a: "register sampleIsEmail sampleHash ''2'' (\<lambda>us. us) ?b sampleUsers
     = (Fail 409 ''Email already registered'', sampleUsers)"
    using register_duplicate_conflict[OF p, where users = sampleUsers and hashPassword = sampleHash
        and newId = "''2''" and others = "\<lambda>us. us"] ex
    by blast
  have nex: "\<not> User_exists_email [] (toLowerCase (reg_email ?d))"
    by (simp add: User_exists_email_def)
  have h: "sampleHash (reg_password ?d) = Inr ''hash:another-secret''"
    by (simp add: sampleHash_def)
  have dup: "User_create ''2''
       \<lparr> u_id = [], u_name = trim (reg_name ?d), u_email = toLowerCase (reg_email ?d),
         u_password = ''hash:another-secret'', u_role = ''user'' \<rparr> ((\<lambda>us. sampleUsers) [])
       = Inl DuplicateKey"
    by (simp add: l tn User_create_def sampleUsers_def)
  have b: "register sampleIsEmail sampleHash ''2'' (\<lambda>us. sampleUsers) ?b []
     = (Fail 409 ''Email already registered'', sampleUsers)"
    using register_duplicate_conflict[OF p, where users = "[]" and hashPassword = sampleHash
        and hashed = "''hash:another-secret''" and newId = "''2''"
        and others = "\<lambda>us. sampleUsers"] nex h dup
    by blast
  let ?b2 = "registration '' Ravi '' ''Ravi@Example.org'' ''secret-two''"
  let ?d2 = "\<lparr> reg_name = '' Ravi '', reg_email = ''Ravi@Example.org'',
               reg_password = ''secret-two'' \<rparr>"
  have l2: "toLowerCase ''Ravi@Example.org'' = ''ravi@example.org''" by code_simp
  have t2: "trim '' Ravi '' = ''Ravi''" by code_simp
  have p2: "registerSchema sampleIsEmail ?b2 = Some ?d2"
    by (simp add: registerSchema_registration sampleIsEmail_def)
  have r: "register sampleIsEmail sampleHash ''2'' (\<lambda>us. us) ?b2 sampleUsers
     = (Ok 201 (),
        sampleUsers @ [\<lparr> u_id = ''2'', u_name = ''Ravi'', u_email = ''ravi@example.org'',
                         u_password = ''hash:secret-two'', u_role = ''user'' \<rparr>])"
    by (simp add: register_def p2 l2 t2 User_exists_email_def sampleUsers_def sampleHash_def
        User_create_def Let_def)
 from register_duplicate_conflict[OF p2, where users = sampleUsers and hashPassword = sampleHash
      and newId = "''2''" and others = "\<lambda>us. us" and code = 201 and x = "()" and users' =
      "sampleUsers @ [\<lparr> u_id = ''2'', u_name = ''Ravi'', u_email = ''ravi@example.org'',
                         u_password = ''hash:secret-two'', u_role = ''user'' \<rparr>]"] r
  have c: "\<exists>usr. sampleUsers @ [\<lparr> u_id = ''2'', u_name = ''Ravi'', u_email = ''ravi@example.org'',
                         u_password = ''hash:secret-two'', u_role = ''user'' \<rparr>]
             = sampleUsers @ [usr] \<and> u_email usr = toLowerCase (reg_email ?d2)
               \<and> u_role usr = ''user'' \<and> u_name usr = trim (reg_name ?d2)"
    by blast
  from a b c r show ?thesis by simp
qed

section \<open>C10: a created listing is never expired\<close>

lemma jobInputSchema_ignores_isExpired:
  assumes "\<forall>k. k \<noteq> ''isExpired'' \<longrightarrow> field b k = field b' k"
  shows "jobInputSchema isUrl b = jobInputSchema isUrl b'"
proof -
  have f: "\<And>k. k \<noteq> ''isExpired'' \<Longrightarrow> field b k = field b' k" using assms by blast
  show ?thesis unfolding jobInputSchema_def
    by (simp add: f)
qed

lemma jobs_post_created:
  assumes "jobs_post isUrl parseDate c body store = Some (Ok code (i, s), store')"
  shows "\<exists>doc. store' = store @ [doc] \<and> oid doc = i \<and> slug doc = s \<and> isExpired doc = False"
proof -
  from assms obtain d where d: "jobInputSchema isUrl body = Some d"
    by (auto simp: jobs_post_def split: option.splits)
  from assms d obtain sl where sl: "ensureUniqueSlug store (clock c) (in_title d) = Some sl"
    by (auto simp: jobs_post_def split: option.splits)
  let ?doc = "newJob d sl (toDate parseDate (in_startDate d)) (toDate parseDate (in_lastDate d))"
  from assms d sl obtain doc where
    cr: "Job_create (freshId c) (clock c) ?doc store = Inr (doc, store')" and i: "i = oid doc" and s: "s = slug doc"
    by (auto simp: jobs_post_def split: sum.splits store_error.splits)
  from Job_create_Inr[OF cr] have "store' = store @ [doc]" "isExpired doc = isExpired ?doc" by auto
  then show ?thesis using i s by (simp add: newJob_def)
qed

lemma admin_post_jobs_created:
  assumes "admin_post_jobs isUrl parseDate c body store = Some (Ok code (i, s), store')"
  shows "\<exists>doc. store' = store @ [doc] \<and> oid doc = i \<and> slug doc = s \<and> isExpired doc = False"
proof -
  from assms obtain d where d: "jobInputSchema isUrl body = Some d"
    by (auto simp: admin_post_jobs_def split: option.splits)
  from assms d obtain sl where sl: "ensureUniqueSlug_admin store (clock c) (in_title d) = Some sl"
    by (auto simp: admin_post_jobs_def split: option.splits)
  let ?doc = "newJob d sl (toDateInput parseDate (in_startDate d)) (toDateInput parseDate (in_lastDate d))"
  from assms d sl obtain doc where
    cr: "Job_create (freshId c) (clock c) ?doc store = Inr (doc, store')" and i: "i = oid doc" and s: "s = slug doc"
    by (auto simp: admin_post_jobs_def split: sum.splits store_error.splits)
  from Job_create_Inr[OF cr] have "store' = store @ [doc]" "isExpired doc = isExpired ?doc" by auto
  then show ?thesis using i s by (simp add: newJob_def)
qed

lemma jobs_post_returns: "\<exists>r store'. jobs_post isUrl parseDate c body store = Some (r, store')"
proof (cases "jobInputSchema isUrl body")
  case None
  then show ?thesis by (simp add: jobs_post_def)
next
  case (Some d)
  from ensureUniqueSlug_returns[of store "clock c" "in_title d"] obtain s where
    s: "ensureUniqueSlug store (clock c) (in_title d) = Some s" by blast
  show ?thesis using Some s
    by (auto simp: jobs_post_def split: sum.splits store_error.splits)
qed

lemma admin_post_jobs_returns:
  "\<exists>r store'. admin_post_jobs isUrl parseDate c body store = Some (r, store')"
proof (cases "jobInputSchema isUrl body")
  case None
  then show ?thesis by (simp add: admin_post_jobs_def)
next
  case (Some d)
  from ensureUniqueSlug_returns[of store "clock c" "in_title d"] obtain s where
    s: "ensureUniqueSlug_admin store (clock c) (in_title d) = Some s"
    by (auto simp: ensureUniqueSlug_admin_eq)
  show ?thesis using Some s
    by (auto simp: admin_post_jobs_def split: sum.splits store_error.splits)
qed

text \<open>
  Claim C10. For both create routes: whenever the handler answers with a success, the
  store has gained exactly one document, the one the response names, and its
  \<open>isExpired\<close> is false. The request body cannot change this: two bodies that agree on
  every key other than \<open>isExpired\<close> are parsed to the same data by the input schema and
  get the same response and the same store. (Both handlers answer every request:
  \<open>jobs_post_returns\<close>, \<open>admin_post_jobs_returns\<close>.)
\<close>

theorem created_listing_not_expired:
  "(jobs_post isUrl parseDate c body store = Some (Ok code (i, s), store') \<longrightarrow>
      (\<exists>doc. store' = store @ [doc] \<and> oid doc = i \<and> slug doc = s \<and> isExpired doc = False))
   \<and> (admin_post_jobs isUrl parseDate c body store = Some (Ok code (i, s), store') \<longrightarrow>
      (\<exists>doc. store' = store @ [doc] \<and> oid doc = i \<and> slug doc = s \<and> isExpired doc = False))
   \<and> ((\<forall>k. k \<noteq> ''isExpired'' \<longrightarrow> field body k = field body' k) \<longrightarrow>
        jobInputSchema isUrl body = jobInputSchema isUrl body'
        \<and> jobs_post isUrl parseDate c body store = jobs_post isUrl parseDate c body' store
        \<and> admin_post_jobs isUrl parseDate c body store
            = admin_post_jobs isUrl parseDate c body' store)"
proof -
  have a: "(\<forall>k. k \<noteq> ''isExpired'' \<longrightarrow> field body k = field body' k) \<longrightarrow>
        jobInputSchema isUrl body = jobInputSchema isUrl body'
        \<and> jobs_post isUrl parseDate c body store = jobs_post isUrl parseDate c body' store
        \<and> admin_post_jobs isUrl parseDate c body store
            = admin_post_jobs isUrl parseDate c body' store"
  proof
    assume h: "\<forall>k. k \<noteq> ''isExpired'' \<longrightarrow> field body k = field body' k"
    have e: "jobInputSchema isUrl body = jobInputSchema isUrl body'"
      by (rule jobInputSchema_ignores_isExpired[OF h])
    then show "jobInputSchema isUrl body = jobInputSchema isUrl body'
        \<and> jobs_post isUrl parseDate c body store = jobs_post isUrl parseDate c body' store
        \<and> admin_post_jobs isUrl parseDate c body store
            = admin_post_jobs isUrl parseDate c body' store"
      by (simp add: jobs_post_def admin_post_jobs_def)
  qed
  show ?thesis using jobs_post_created[of isUrl parseDate c body store code i s store']
      admin_post_jobs_created[of isUrl parseDate c body store code i s store'] a
    by blast
qed

text \<open>A body that asks for \<open>isExpired: true\<close> is stored with \<open>isExpired\<close> false.\<close>

theorem created_listing_not_expired_witness:
  "(\<exists>doc. jobs_post (\<lambda>u. True) (\<lambda>d. None) \<lparr>clock = 7, freshId = ''id7''\<rparr>
            (listingBody ''Staff Nurse'' ''https://example.org/7'' (Some (JBool True))) []
          = Some (Ok 200 (''id7'', ''staff-nurse''), [doc])
        \<and> isExpired doc = False)
   \<and> (\<exists>doc. admin_post_jobs (\<lambda>u. True) (\<lambda>d. None) \<lparr>clock = 7, freshId = ''id7''\<rparr>
            (listingBody ''Staff Nurse'' ''https://example.org/7'' (Some (JBool True))) []
          = Some (Ok 200 (''id7'', ''staff-nurse''), [doc])
        \<and> isExpired doc = False)
   \<and> jobs_post (\<lambda>u. True) (\<lambda>d. None) \<lparr>clock = 7, freshId = ''id7''\<rparr>
        (listingBody ''Staff Nurse'' ''https://example.org/7'' (Some (JBool True))) []
      = jobs_post (\<lambda>u. True) (\<lambda>d. None) \<lparr>clock = 7, freshId = ''id7''\<rparr>
        (listingBody ''Staff Nurse'' ''https://example.org/7'' None) []"
proof -
  let ?c = "\<lparr>clock = 7, freshId = ''id7''\<rparr>"
  let ?b = "listingBody ''Staff Nurse'' ''https://example.org/7'' (Some (JBool True))"
  let ?b' = "listingBody ''Staff Nurse'' ''https://example.org/7'' None"
  have r1: "map_option fst (jobs_post (\<lambda>u. True) (\<lambda>d. None) ?c ?b [])
              = Some (Ok 200 (''id7'', ''staff-nurse''))" by code_simp
  have r2: "map_option fst (admin_post_jobs (\<lambda>u. True) (\<lambda>d. None) ?c ?b [])
              = Some (Ok 200 (''id7'', ''staff-nurse''))" by code_simp
  have f: "\<forall>k. k \<noteq> ''isExpired'' \<longrightarrow> field ?b k = field ?b' k"
    by (simp add: listingBody_def)
  from r1 obtain st1 where s1: "jobs_post (\<lambda>u. True) (\<lambda>d. None) ?c ?b []
      = Some (Ok 200 (''id7'', ''staff-nurse''), st1)" by auto
  from r2 obtain st2 where s2: "admin_post_jobs (\<lambda>u. True) (\<lambda>d. None) ?c ?b []
      = Some (Ok 200 (''id7'', ''staff-nurse''), st2)" by auto
  note t1 = created_listing_not_expired[of "\<lambda>u. True" "\<lambda>d. None" ?c ?b "[]" 200 "''id7''"
      "''staff-nurse''" st1 ?b']
  note t2 = created_listing_not_expired[of "\<lambda>u. True" "\<lambda>d. None" ?c ?b "[]" 200 "''id7''"
      "''staff-nurse''" st2 ?b']
  from t1 s1 obtain d1 where d1: "st1 = [] @ [d1]" "isExpired d1 = False" by blast
  from t2 s2 obtain d2 where d2: "st2 = [] @ [d2]" "isExpired d2 = False" by blast
  from t1 f have e: "jobs_post (\<lambda>u. True) (\<lambda>d. None) ?c ?b [] = jobs_post (\<lambda>u. True) (\<lambda>d. None) ?c ?b' []"
    by blast
  show ?thesis using s1 d1 s2 d2 e by auto
qed

end
